theory Spec2Isabelle
  imports Main "HOL-Library.Word"
begin

section \<open>Memory model of linkedlist.c\<close>

text \<open>
  The list lives in C memory and is reached through pointers, so the model is an explicit
  store. A pointer is an optional address, \<open>None\<close> being \<open>NULL\<close>. The store has one
  typed heap per kind of object: the list headers (\<open>struct __llist_s\<close>), the nodes
  (\<open>struct __node_s\<close>), the iterators (\<open>struct __ll_iter_s\<close>) and the caller's payload
  objects, which the library only reads through \<open>memcmp\<close> and releases in \<open>ll_clear\<close>.
  An address outside the domain of a heap is unallocated (never allocated, or freed).

  The field \<open>prev\<close> of a node is never written nor read by any function of the file and
  is left out. The fields \<open>__first\<close>, \<open>__last\<close>, \<open>__elem_size\<close> and \<open>__next\<close>
  are written \<open>s_first\<close>, \<open>s_last\<close>, \<open>s_elem_size\<close> and \<open>s_next\<close>; the field
  \<open>next\<close> of a node is \<open>nextp\<close>.
\<close>

type_synonym addr = nat
type_synonym ptr = "addr option"
type_synonym byte = "8 word"

record llist_s =
  s_first :: ptr
  s_last :: ptr
  s_elem_size :: nat

record ll_iter_s =
  s_next :: ptr

record node_s =
  element :: ptr
  index :: int
  nextp :: ptr

record mem =
  lists :: "addr \<rightharpoonup> llist_s"
  nodes :: "addr \<rightharpoonup> node_s"
  iters :: "addr \<rightharpoonup> ll_iter_s"
  objs :: "addr \<rightharpoonup> byte list"

text \<open>
  The indices and sizes are C \<open>int\<close>s, taken to be 32 bits wide in two's complement:
  integers between \<open>INT_MIN\<close> and \<open>INT_MAX\<close>. Each addition or subtraction of the
  source is followed by \<open>wrap_int\<close>, which brings a result outside this range back
  into it modulo \<open>2^32\<close>, as the machine instruction does (the C standard itself
  leaves a signed overflow undefined). The indices that the functions store are
  therefore always in range: an inserted index lies between 0 and a size, and every
  other one is the result of \<open>wrap_int\<close>.
\<close>

definition INT_MIN :: int where
  "INT_MIN = - 2147483648"

definition INT_MAX :: int where
  "INT_MAX = 2147483647"

definition wrap_int :: "int \<Rightarrow> int" where
  "wrap_int x = (x + 2147483648) mod 4294967296 - 2147483648"

text \<open>
  An invalid memory access is a fault of the model: dereferencing \<open>NULL\<close>, touching
  unallocated memory, and using a local pointer that was never assigned. A loop that does
  not terminate is the value \<open>None\<close> of the outer \<open>option\<close>.
\<close>

datatype fault = NullDeref | BadAccess | Uninit

definition get_list :: "mem \<Rightarrow> ptr \<Rightarrow> fault + llist_s" where
  "get_list m p =
     (case p of None \<Rightarrow> Inl NullDeref
      | Some a \<Rightarrow> (case lists m a of None \<Rightarrow> Inl BadAccess | Some L \<Rightarrow> Inr L))"

definition get_node :: "mem \<Rightarrow> ptr \<Rightarrow> fault + node_s" where
  "get_node m p =
     (case p of None \<Rightarrow> Inl NullDeref
      | Some a \<Rightarrow> (case nodes m a of None \<Rightarrow> Inl BadAccess | Some n \<Rightarrow> Inr n))"

definition get_iter :: "mem \<Rightarrow> ptr \<Rightarrow> fault + ll_iter_s" where
  "get_iter m p =
     (case p of None \<Rightarrow> Inl NullDeref
      | Some a \<Rightarrow> (case iters m a of None \<Rightarrow> Inl BadAccess | Some i \<Rightarrow> Inr i))"

definition upd_list :: "mem \<Rightarrow> ptr \<Rightarrow> (llist_s \<Rightarrow> llist_s) \<Rightarrow> fault + mem" where
  "upd_list m p f =
     (case p of None \<Rightarrow> Inl NullDeref
      | Some a \<Rightarrow> (case lists m a of None \<Rightarrow> Inl BadAccess
                   | Some L \<Rightarrow> Inr (m\<lparr>lists := (lists m)(a \<mapsto> f L)\<rparr>)))"

definition upd_node :: "mem \<Rightarrow> ptr \<Rightarrow> (node_s \<Rightarrow> node_s) \<Rightarrow> fault + mem" where
  "upd_node m p f =
     (case p of None \<Rightarrow> Inl NullDeref
      | Some a \<Rightarrow> (case nodes m a of None \<Rightarrow> Inl BadAccess
                   | Some n \<Rightarrow> Inr (m\<lparr>nodes := (nodes m)(a \<mapsto> f n)\<rparr>)))"

definition upd_iter :: "mem \<Rightarrow> ptr \<Rightarrow> (ll_iter_s \<Rightarrow> ll_iter_s) \<Rightarrow> fault + mem" where
  "upd_iter m p f =
     (case p of None \<Rightarrow> Inl NullDeref
      | Some a \<Rightarrow> (case iters m a of None \<Rightarrow> Inl BadAccess
                   | Some i \<Rightarrow> Inr (m\<lparr>iters := (iters m)(a \<mapsto> f i)\<rparr>)))"

subsection \<open>Construction and size\<close>

text \<open>
  \<open>malloc\<close> belongs to the environment: each function that allocates takes the pointer
  that \<open>malloc\<close> returns as the argument \<open>alloc\<close>, \<open>None\<close> when the allocation fails.
\<close>

definition ll_init :: "mem \<Rightarrow> ptr \<Rightarrow> nat \<Rightarrow> ptr \<times> mem" where
  "ll_init m alloc elem_size =
     (case alloc of None \<Rightarrow> (None, m)
      | Some l \<Rightarrow>
          (Some l, m\<lparr>lists := (lists m)(l \<mapsto>
             \<lparr>s_first = None, s_last = None, s_elem_size = elem_size\<rparr>)\<rparr>))"

definition ll_size :: "mem \<Rightarrow> ptr \<Rightarrow> fault + int" where
  "ll_size m list =
     (case list of None \<Rightarrow> Inr (- 1)
      | Some l \<Rightarrow>
          (case get_list m list of Inl f \<Rightarrow> Inl f
           | Inr L \<Rightarrow>
               (case s_last L of None \<Rightarrow> Inr 0
                | Some t \<Rightarrow>
                    (case get_node m (Some t) of Inl f \<Rightarrow> Inl f
                     | Inr n \<Rightarrow> Inr (wrap_int (index n + 1))))))"

subsection \<open>Lookup and replacement\<close>

partial_function (option) ll_get_loop :: "mem \<Rightarrow> ptr \<Rightarrow> int \<Rightarrow> (fault + ptr) option" where
  "ll_get_loop m temp idx =
     (case temp of None \<Rightarrow> Some (Inr None)
      | Some t \<Rightarrow>
          (case get_node m temp of Inl f \<Rightarrow> Some (Inl f)
           | Inr n \<Rightarrow>
               if index n = idx then Some (Inr (element n))
               else ll_get_loop m (nextp n) idx))"

definition ll_get :: "mem \<Rightarrow> ptr \<Rightarrow> int \<Rightarrow> (fault + ptr) option" where
  "ll_get m list idx =
     (case list of None \<Rightarrow> Some (Inr None)
      | Some l \<Rightarrow>
          if idx < 0 then Some (Inr None)
          else (case ll_size m list of Inl f \<Rightarrow> Some (Inl f)
                | Inr sz \<Rightarrow>
                    if idx \<ge> sz then Some (Inr None)
                    else (case get_list m list of Inl f \<Rightarrow> Some (Inl f)
                          | Inr L \<Rightarrow> ll_get_loop m (s_first L) idx)))"

partial_function (option) ll_set_loop ::
  "mem \<Rightarrow> ptr \<Rightarrow> int \<Rightarrow> ptr \<Rightarrow> (fault + ptr \<times> mem) option" where
  "ll_set_loop m temp idx elem =
     (case temp of None \<Rightarrow> Some (Inr (None, m))
      | Some t \<Rightarrow>
          (case get_node m temp of Inl f \<Rightarrow> Some (Inl f)
           | Inr n \<Rightarrow>
               if index n = idx then
                 (case upd_node m temp (\<lambda>n. n\<lparr>element := elem\<rparr>) of Inl f \<Rightarrow> Some (Inl f)
                  | Inr m' \<Rightarrow> Some (Inr (element n, m')))
               else ll_set_loop m (nextp n) idx elem))"

definition ll_set :: "mem \<Rightarrow> ptr \<Rightarrow> int \<Rightarrow> ptr \<Rightarrow> (fault + ptr \<times> mem) option" where
  "ll_set m list idx elem =
     (case list of None \<Rightarrow> Some (Inr (None, m))
      | Some l \<Rightarrow>
          if idx < 0 then Some (Inr (None, m))
          else (case ll_size m list of Inl f \<Rightarrow> Some (Inl f)
                | Inr sz \<Rightarrow>
                    if idx \<ge> sz then Some (Inr (None, m))
                    else (case get_list m list of Inl f \<Rightarrow> Some (Inl f)
                          | Inr L \<Rightarrow> ll_set_loop m (s_first L) idx elem)))"

definition ll_first :: "mem \<Rightarrow> ptr \<Rightarrow> (fault + ptr) option" where
  "ll_first m list = ll_get m list 0"

definition ll_last :: "mem \<Rightarrow> ptr \<Rightarrow> (fault + ptr) option" where
  "ll_last m list =
     (case ll_size m list of Inl f \<Rightarrow> Some (Inl f)
      | Inr sz \<Rightarrow> ll_get m list (wrap_int (sz - 1)))"

subsection \<open>Insertion\<close>

text \<open>The loop of \<open>ll_add\<close> that looks for the node before the insertion point.\<close>

partial_function (option) ll_add_walk ::
  "mem \<Rightarrow> ptr \<Rightarrow> ptr \<Rightarrow> int \<Rightarrow> (fault + mem) option" where
  "ll_add_walk m temp new idx =
     (case get_node m temp of Inl f \<Rightarrow> Some (Inl f)
      | Inr tn \<Rightarrow>
          (case nextp tn of None \<Rightarrow> Some (Inr m)
           | Some s \<Rightarrow>
               (case get_node m (nextp tn) of Inl f \<Rightarrow> Some (Inl f)
                | Inr sn \<Rightarrow>
                    if index sn = idx then
                      (case upd_node m new (\<lambda>n. n\<lparr>nextp := nextp tn\<rparr>) of
                         Inl f \<Rightarrow> Some (Inl f)
                       | Inr m1 \<Rightarrow>
                           (case upd_node m1 temp (\<lambda>n. n\<lparr>nextp := new\<rparr>) of
                              Inl f \<Rightarrow> Some (Inl f)
                            | Inr m2 \<Rightarrow> Some (Inr m2)))
                    else ll_add_walk m (nextp tn) new idx)))"

text \<open>The loop of \<open>ll_add\<close> that increases the indices of the nodes after the new one.\<close>

partial_function (option) ll_add_reindex :: "mem \<Rightarrow> ptr \<Rightarrow> (fault + mem) option" where
  "ll_add_reindex m temp =
     (case temp of None \<Rightarrow> Some (Inr m)
      | Some t \<Rightarrow>
          (case upd_node m temp (\<lambda>n. n\<lparr>index := wrap_int (index n + 1)\<rparr>) of Inl f \<Rightarrow> Some (Inl f)
           | Inr m1 \<Rightarrow>
               (case get_node m1 temp of Inl f \<Rightarrow> Some (Inl f)
                | Inr n \<Rightarrow> ll_add_reindex m1 (nextp n))))"

definition ll_add :: "mem \<Rightarrow> ptr \<Rightarrow> ptr \<Rightarrow> int \<Rightarrow> ptr \<Rightarrow> (fault + int \<times> mem) option" where
  "ll_add m alloc list idx elem =
     (case list of None \<Rightarrow> Some (Inr (0, m))
      | Some l \<Rightarrow>
      if idx < 0 then Some (Inr (0, m))
      else (case ll_size m list of Inl f \<Rightarrow> Some (Inl f) | Inr sz \<Rightarrow>
      if idx > sz then Some (Inr (0, m))
      else (case alloc of None \<Rightarrow> Some (Inr (0, m)) | Some a \<Rightarrow>
        let new = Some a;
            m0 = m\<lparr>nodes := (nodes m)(a \<mapsto> \<lparr>element = elem, index = idx, nextp = None\<rparr>)\<rparr>
        in
        (case ll_size m0 list of Inl f \<Rightarrow> Some (Inl f) | Inr sz0 \<Rightarrow>
        if sz0 = 0 then
          (case upd_list m0 list (\<lambda>L. L\<lparr>s_first := new\<rparr>) of Inl f \<Rightarrow> Some (Inl f) | Inr m1 \<Rightarrow>
          (case upd_list m1 list (\<lambda>L. L\<lparr>s_last := new\<rparr>) of Inl f \<Rightarrow> Some (Inl f) | Inr m2 \<Rightarrow>
             Some (Inr (1, m2))))
        else (case ll_size m0 list of Inl f \<Rightarrow> Some (Inl f) | Inr sz1 \<Rightarrow>
        if idx = sz1 then
          (case get_list m0 list of Inl f \<Rightarrow> Some (Inl f) | Inr L \<Rightarrow>
          (case upd_node m0 (s_last L) (\<lambda>n. n\<lparr>nextp := new\<rparr>) of Inl f \<Rightarrow> Some (Inl f) | Inr m1 \<Rightarrow>
          (case upd_list m1 list (\<lambda>L. L\<lparr>s_last := new\<rparr>) of Inl f \<Rightarrow> Some (Inl f) | Inr m2 \<Rightarrow>
             Some (Inr (1, m2)))))
        else
          (case
             (if idx = 0 then
                (case get_list m0 list of Inl f \<Rightarrow> Some (Inl f) | Inr L \<Rightarrow>
                (case upd_node m0 new (\<lambda>n. n\<lparr>nextp := s_first L\<rparr>) of Inl f \<Rightarrow> Some (Inl f) | Inr m1 \<Rightarrow>
                (case upd_list m1 list (\<lambda>L. L\<lparr>s_first := new\<rparr>) of Inl f \<Rightarrow> Some (Inl f) | Inr m2 \<Rightarrow>
                   Some (Inr m2))))
              else
                (case get_list m0 list of Inl f \<Rightarrow> Some (Inl f) | Inr L \<Rightarrow>
                   ll_add_walk m0 (s_first L) new idx))
           of None \<Rightarrow> None | Some (Inl f) \<Rightarrow> Some (Inl f) | Some (Inr m3) \<Rightarrow>
          (case get_node m3 new of Inl f \<Rightarrow> Some (Inl f) | Inr n \<Rightarrow>
          (case ll_add_reindex m3 (nextp n) of None \<Rightarrow> None | Some (Inl f) \<Rightarrow> Some (Inl f)
           | Some (Inr m4) \<Rightarrow> Some (Inr (1, m4))))))))))"

text \<open>\<open>ll_addfirst\<close> and \<open>ll_addlast\<close> return nothing: the model returns the memory.\<close>

definition ll_addfirst :: "mem \<Rightarrow> ptr \<Rightarrow> ptr \<Rightarrow> ptr \<Rightarrow> (fault + mem) option" where
  "ll_addfirst m alloc list elem =
     (case ll_add m alloc list 0 elem of None \<Rightarrow> None | Some (Inl f) \<Rightarrow> Some (Inl f)
      | Some (Inr (r, m')) \<Rightarrow> Some (Inr m'))"

definition ll_addlast :: "mem \<Rightarrow> ptr \<Rightarrow> ptr \<Rightarrow> ptr \<Rightarrow> (fault + mem) option" where
  "ll_addlast m alloc list elem =
     (case ll_size m list of Inl f \<Rightarrow> Some (Inl f)
      | Inr sz \<Rightarrow>
          (case ll_add m alloc list sz elem of None \<Rightarrow> None | Some (Inl f) \<Rightarrow> Some (Inl f)
           | Some (Inr (r, m')) \<Rightarrow> Some (Inr m')))"

subsection \<open>Removal\<close>

text \<open>
  The local \<open>target\<close> of \<open>ll_remove\<close> is assigned only when the node is found: the
  search returns \<open>None\<close> when \<open>target\<close> was never assigned and \<open>Some p\<close> when it
  holds the pointer \<open>p\<close>.
\<close>

partial_function (option) ll_remove_walk ::
  "mem \<Rightarrow> ptr \<Rightarrow> int \<Rightarrow> (fault + mem \<times> ptr option) option" where
  "ll_remove_walk m temp idx =
     (case get_node m temp of Inl f \<Rightarrow> Some (Inl f)
      | Inr tn \<Rightarrow>
          (case nextp tn of None \<Rightarrow> Some (Inr (m, None))
           | Some s \<Rightarrow>
               (case get_node m (nextp tn) of Inl f \<Rightarrow> Some (Inl f)
                | Inr sn \<Rightarrow>
                    if index sn = idx then
                      (case upd_node m temp (\<lambda>n. n\<lparr>nextp := nextp sn\<rparr>) of
                         Inl f \<Rightarrow> Some (Inl f)
                       | Inr m1 \<Rightarrow> Some (Inr (m1, Some (nextp tn))))
                    else ll_remove_walk m (nextp tn) idx)))"

text \<open>The loop that decreases the indices of the nodes after the removed one.\<close>

partial_function (option) ll_remove_reindex :: "mem \<Rightarrow> ptr \<Rightarrow> (fault + mem) option" where
  "ll_remove_reindex m temp =
     (case temp of None \<Rightarrow> Some (Inr m)
      | Some t \<Rightarrow>
          (case upd_node m temp (\<lambda>n. n\<lparr>index := wrap_int (index n - 1)\<rparr>) of Inl f \<Rightarrow> Some (Inl f)
           | Inr m1 \<Rightarrow>
               (case get_node m1 temp of Inl f \<Rightarrow> Some (Inl f)
                | Inr n \<Rightarrow> ll_remove_reindex m1 (nextp n))))"

text \<open>\<open>free\<close> on a node: \<open>NULL\<close> is accepted, an unallocated address is a fault.\<close>

definition free_node :: "mem \<Rightarrow> ptr \<Rightarrow> fault + mem" where
  "free_node m p =
     (case p of None \<Rightarrow> Inr m
      | Some a \<Rightarrow> (case nodes m a of None \<Rightarrow> Inl BadAccess
                   | Some n \<Rightarrow> Inr (m\<lparr>nodes := (nodes m)(a := None)\<rparr>)))"

definition ll_remove :: "mem \<Rightarrow> ptr \<Rightarrow> int \<Rightarrow> (fault + ptr \<times> mem) option" where
  "ll_remove m list idx =
     (case list of None \<Rightarrow> Some (Inr (None, m))
      | Some l \<Rightarrow>
      if idx < 0 then Some (Inr (None, m))
      else (case ll_size m list of Inl f \<Rightarrow> Some (Inl f) | Inr sz \<Rightarrow>
      if idx \<ge> sz then Some (Inr (None, m))
      else (case ll_size m list of Inl f \<Rightarrow> Some (Inl f) | Inr sz0 \<Rightarrow>
      if sz0 = 0 then Some (Inr (None, m))
      else
        (case
           (if idx = 0 then
              (case get_list m list of Inl f \<Rightarrow> Some (Inl f) | Inr L \<Rightarrow>
              (case get_node m (s_first L) of Inl f \<Rightarrow> Some (Inl f) | Inr tn \<Rightarrow>
              (case upd_list m list (\<lambda>L. L\<lparr>s_first := nextp tn\<rparr>) of Inl f \<Rightarrow> Some (Inl f) | Inr m1 \<Rightarrow>
                 if nextp tn = None then
                   (case upd_list m1 list (\<lambda>L. L\<lparr>s_last := nextp tn\<rparr>) of Inl f \<Rightarrow> Some (Inl f)
                    | Inr m2 \<Rightarrow> Some (Inr (m2, Some (s_first L))))
                 else Some (Inr (m1, Some (s_first L))))))
            else
              (case get_list m list of Inl f \<Rightarrow> Some (Inl f) | Inr L \<Rightarrow>
                 ll_remove_walk m (s_first L) idx))
         of None \<Rightarrow> None | Some (Inl f) \<Rightarrow> Some (Inl f) | Some (Inr (m3, tgt)) \<Rightarrow>
        (case tgt of None \<Rightarrow> Some (Inl Uninit) | Some target \<Rightarrow>
        (case get_node m3 target of Inl f \<Rightarrow> Some (Inl f) | Inr n \<Rightarrow>
        (case ll_remove_reindex m3 (nextp n) of None \<Rightarrow> None | Some (Inl f) \<Rightarrow> Some (Inl f)
         | Some (Inr m4) \<Rightarrow>
        (case get_node m4 target of Inl f \<Rightarrow> Some (Inl f) | Inr n' \<Rightarrow>
        (case free_node m4 target of Inl f \<Rightarrow> Some (Inl f) | Inr m5 \<Rightarrow>
           Some (Inr (element n', m5)))))))))))"

text \<open>\<open>free\<close> on a payload object, as \<open>ll_clear\<close> calls it on what \<open>ll_remove\<close> returns.\<close>

definition free_obj :: "mem \<Rightarrow> ptr \<Rightarrow> fault + mem" where
  "free_obj m p =
     (case p of None \<Rightarrow> Inr m
      | Some a \<Rightarrow> (case objs m a of None \<Rightarrow> Inl BadAccess
                   | Some bs \<Rightarrow> Inr (m\<lparr>objs := (objs m)(a := None)\<rparr>)))"

partial_function (option) ll_clear_loop :: "mem \<Rightarrow> ptr \<Rightarrow> (fault + mem) option" where
  "ll_clear_loop m list =
     (case ll_size m list of Inl f \<Rightarrow> Some (Inl f)
      | Inr sz \<Rightarrow>
          if sz \<noteq> 0 then
            (case ll_remove m list 0 of None \<Rightarrow> None | Some (Inl f) \<Rightarrow> Some (Inl f)
             | Some (Inr (e, m1)) \<Rightarrow>
                 (case free_obj m1 e of Inl f \<Rightarrow> Some (Inl f)
                  | Inr m2 \<Rightarrow> ll_clear_loop m2 list))
          else Some (Inr m))"

definition ll_clear :: "mem \<Rightarrow> ptr \<Rightarrow> (fault + mem) option" where
  "ll_clear m list = (case list of None \<Rightarrow> Some (Inr m) | Some l \<Rightarrow> ll_clear_loop m list)"

definition ll_free :: "mem \<Rightarrow> ptr \<Rightarrow> (fault + mem) option" where
  "ll_free m list =
     (case list of None \<Rightarrow> Some (Inr m)
      | Some l \<Rightarrow>
          (case ll_clear m list of None \<Rightarrow> None | Some (Inl f) \<Rightarrow> Some (Inl f)
           | Some (Inr m1) \<Rightarrow>
               (case lists m1 l of None \<Rightarrow> Some (Inl BadAccess)
                | Some L \<Rightarrow> Some (Inr (m1\<lparr>lists := (lists m1)(l := None)\<rparr>)))))"

subsection \<open>Search\<close>

text \<open>
  \<open>memcmp\<close> of the C library: both objects must be readable for \<open>n\<close> bytes; the result
  is 0 when the first \<open>n\<close> bytes agree and otherwise the difference of the first pair
  of bytes that differ, read as unsigned.
\<close>

fun cmp_bytes :: "byte list \<Rightarrow> byte list \<Rightarrow> int" where
  "cmp_bytes (b # bs) (c # cs) = (if b = c then cmp_bytes bs cs else int (unat b) - int (unat c))"
| "cmp_bytes bs cs = 0"

definition memcmp :: "mem \<Rightarrow> ptr \<Rightarrow> ptr \<Rightarrow> nat \<Rightarrow> fault + int" where
  "memcmp m p q n =
     (case p of None \<Rightarrow> Inl NullDeref | Some a \<Rightarrow>
      (case q of None \<Rightarrow> Inl NullDeref | Some b \<Rightarrow>
       (case objs m a of None \<Rightarrow> Inl BadAccess | Some bs \<Rightarrow>
        (case objs m b of None \<Rightarrow> Inl BadAccess | Some cs \<Rightarrow>
           if length bs < n \<or> length cs < n then Inl BadAccess
           else Inr (cmp_bytes (take n bs) (take n cs))))))"

partial_function (option) ll_contains_loop ::
  "mem \<Rightarrow> ptr \<Rightarrow> ptr \<Rightarrow> nat \<Rightarrow> (fault + int) option" where
  "ll_contains_loop m temp elem num_bytes =
     (case temp of None \<Rightarrow> Some (Inr 0)
      | Some t \<Rightarrow>
          (case get_node m temp of Inl f \<Rightarrow> Some (Inl f)
           | Inr n \<Rightarrow>
               (case memcmp m elem (element n) num_bytes of Inl f \<Rightarrow> Some (Inl f)
                | Inr c \<Rightarrow>
                    if c = 0 then Some (Inr 1)
                    else ll_contains_loop m (nextp n) elem num_bytes)))"

definition ll_contains :: "mem \<Rightarrow> ptr \<Rightarrow> ptr \<Rightarrow> (fault + int) option" where
  "ll_contains m list elem =
     (case list of None \<Rightarrow> Some (Inr 0)
      | Some l \<Rightarrow>
          (case get_list m list of Inl f \<Rightarrow> Some (Inl f)
           | Inr L \<Rightarrow> ll_contains_loop m (s_first L) elem (s_elem_size L)))"

partial_function (option) ll_indexof_loop ::
  "mem \<Rightarrow> ptr \<Rightarrow> ptr \<Rightarrow> nat \<Rightarrow> (fault + int) option" where
  "ll_indexof_loop m temp elem num_bytes =
     (case temp of None \<Rightarrow> Some (Inr (- 1))
      | Some t \<Rightarrow>
          (case get_node m temp of Inl f \<Rightarrow> Some (Inl f)
           | Inr n \<Rightarrow>
               (case memcmp m elem (element n) num_bytes of Inl f \<Rightarrow> Some (Inl f)
                | Inr c \<Rightarrow>
                    if c = 0 then Some (Inr (index n))
                    else ll_indexof_loop m (nextp n) elem num_bytes)))"

definition ll_indexof :: "mem \<Rightarrow> ptr \<Rightarrow> ptr \<Rightarrow> (fault + int) option" where
  "ll_indexof m list elem =
     (case list of None \<Rightarrow> Some (Inr (- 1))
      | Some l \<Rightarrow>
          (case get_list m list of Inl f \<Rightarrow> Some (Inl f)
           | Inr L \<Rightarrow> ll_indexof_loop m (s_first L) elem (s_elem_size L)))"

subsection \<open>Iterators\<close>

partial_function (option) ll_itr_loop ::
  "mem \<Rightarrow> ptr \<Rightarrow> int \<Rightarrow> addr \<Rightarrow> (fault + ptr \<times> mem) option" where
  "ll_itr_loop m temp idx it =
     (case temp of None \<Rightarrow> Some (Inr (None, m))
      | Some t \<Rightarrow>
          (case get_node m temp of Inl f \<Rightarrow> Some (Inl f)
           | Inr n \<Rightarrow>
               if index n = idx then
                 Some (Inr (Some it, m\<lparr>iters := (iters m)(it \<mapsto> \<lparr>s_next = temp\<rparr>)\<rparr>))
               else ll_itr_loop m (nextp n) idx it))"

text \<open>
  The iterator that \<open>malloc\<close> returns enters the iterator heap when its field is
  written. When the index is not found the function returns \<open>NULL\<close> and the block,
  never initialised and never released, stays out of the model.
\<close>

definition ll_itr :: "mem \<Rightarrow> ptr \<Rightarrow> ptr \<Rightarrow> int \<Rightarrow> (fault + ptr \<times> mem) option" where
  "ll_itr m alloc list idx =
     (case list of None \<Rightarrow> Some (Inr (None, m))
      | Some l \<Rightarrow>
          if idx < 0 then Some (Inr (None, m))
          else (case ll_size m list of Inl f \<Rightarrow> Some (Inl f)
                | Inr sz \<Rightarrow>
                    if idx \<ge> sz then Some (Inr (None, m))
                    else (case alloc of None \<Rightarrow> Some (Inr (None, m))
                          | Some it \<Rightarrow>
                              (case get_list m list of Inl f \<Rightarrow> Some (Inl f)
                               | Inr L \<Rightarrow> ll_itr_loop m (s_first L) idx it))))"

definition li_destroy :: "mem \<Rightarrow> ptr \<Rightarrow> fault + mem" where
  "li_destroy m iterator =
     (case iterator of None \<Rightarrow> Inr m
      | Some a \<Rightarrow> (case iters m a of None \<Rightarrow> Inl BadAccess
                   | Some i \<Rightarrow> Inr (m\<lparr>iters := (iters m)(a := None)\<rparr>)))"

definition li_hasnext :: "mem \<Rightarrow> ptr \<Rightarrow> fault + int" where
  "li_hasnext m iterator =
     (case iterator of None \<Rightarrow> Inr 0
      | Some a \<Rightarrow>
          (case get_iter m iterator of Inl f \<Rightarrow> Inl f
           | Inr i \<Rightarrow>
               (case get_node m (s_next i) of Inl f \<Rightarrow> Inl f
                | Inr n \<Rightarrow> Inr (if nextp n \<noteq> None then 1 else 0))))"

definition li_next :: "mem \<Rightarrow> ptr \<Rightarrow> fault + ptr \<times> mem" where
  "li_next m iterator =
     (case iterator of None \<Rightarrow> Inr (None, m)
      | Some a \<Rightarrow>
          (case get_iter m iterator of Inl f \<Rightarrow> Inl f
           | Inr i \<Rightarrow>
               (case s_next i of None \<Rightarrow> Inr (None, m)
                | Some t \<Rightarrow>
                    (case get_node m (s_next i) of Inl f \<Rightarrow> Inl f
                     | Inr n \<Rightarrow>
                         (case upd_iter m iterator (\<lambda>i. i\<lparr>s_next := nextp n\<rparr>) of Inl f \<Rightarrow> Inl f
                          | Inr m1 \<Rightarrow> Inr (element n, m1))))))"

subsection \<open>The consumption loop of a caller\<close>

text \<open>
  The specification discusses the caller's loop
  \<^verbatim>\<open>while (li_hasnext(it)) li_next(it);\<close>
  which is not part of the library. \<open>while_hasnext_next\<close> is this loop, collecting in
  \<open>acc\<close> the elements that \<open>li_next\<close> yields.
\<close>

partial_function (option) while_hasnext_next ::
  "mem \<Rightarrow> ptr \<Rightarrow> ptr list \<Rightarrow> (fault + ptr list \<times> mem) option" where
  "while_hasnext_next m iterator acc =
     (case li_hasnext m iterator of Inl f \<Rightarrow> Some (Inl f)
      | Inr b \<Rightarrow>
          if b \<noteq> 0 then
            (case li_next m iterator of Inl f \<Rightarrow> Some (Inl f)
             | Inr (e, m') \<Rightarrow> while_hasnext_next m' iterator (acc @ [e]))
          else Some (Inr (acc, m)))"

section \<open>The list invariant\<close>

text \<open>
  \<open>path h p k xs q\<close>: following \<open>nextp\<close> from \<open>p\<close> visits exactly the nodes of
  \<open>xs\<close>, in order, and ends at \<open>q\<close>; each entry of \<open>xs\<close> is a node's address with the
  element reference it stores, and the cached indices count up from \<open>k\<close>.
\<close>

primrec path :: "(addr \<rightharpoonup> node_s) \<Rightarrow> ptr \<Rightarrow> int \<Rightarrow> (addr \<times> ptr) list \<Rightarrow> ptr \<Rightarrow> bool" where
  "path h p k [] q = (p = q)"
| "path h p k (x # xs) q =
     (p = Some (fst x) \<and>
      (case h (fst x) of None \<Rightarrow> False
       | Some n \<Rightarrow> element n = snd x \<and> index n = k \<and> path h (nextp n) (k + 1) xs q))"

text \<open>
  The invariant of the specification, for the list header at \<open>l\<close> and its nodes \<open>xs\<close>:
  the chain starts at \<open>__first\<close> and ends with a null \<open>next\<close>, the indices are
  \<open>0 .. size - 1\<close> in traversal order, \<open>__last\<close> is the final node of the chain, and
  both references are null when the list is empty.
\<close>

definition ll_wf :: "mem \<Rightarrow> addr \<Rightarrow> (addr \<times> ptr) list \<Rightarrow> bool" where
  "ll_wf m l xs =
     (case lists m l of None \<Rightarrow> False
      | Some L \<Rightarrow>
          path (nodes m) (s_first L) 0 xs None \<and>
          s_last L = (if xs = [] then None else Some (fst (last xs))))"

subsection \<open>Byte-wise equality of payloads\<close>

text \<open>
  \<open>readable m n p\<close>: \<open>p\<close> points to a live payload object of at least \<open>n\<close> bytes;
  \<open>first_bytes m n p\<close> are its first \<open>n\<close> bytes.
\<close>

definition readable :: "mem \<Rightarrow> nat \<Rightarrow> ptr \<Rightarrow> bool" where
  "readable m n p =
     (case p of None \<Rightarrow> False
      | Some a \<Rightarrow> (case objs m a of None \<Rightarrow> False | Some bs \<Rightarrow> n \<le> length bs))"

definition first_bytes :: "mem \<Rightarrow> nat \<Rightarrow> ptr \<Rightarrow> byte list" where
  "first_bytes m n p =
     (case p of None \<Rightarrow> []
      | Some a \<Rightarrow> (case objs m a of None \<Rightarrow> [] | Some bs \<Rightarrow> take n bs))"

text \<open>The non-null element references stored in the nodes \<open>xs\<close>, in order.\<close>

definition payloads :: "(addr \<times> ptr) list \<Rightarrow> addr list" where
  "payloads xs = List.map_filter snd xs"

text \<open>The unfolding equations of the loops are their code equations.\<close>

declare
  ll_get_loop.simps [code]
  ll_set_loop.simps [code]
  ll_add_walk.simps [code]
  ll_add_reindex.simps [code]
  ll_remove_walk.simps [code]
  ll_remove_reindex.simps [code]
  ll_clear_loop.simps [code]
  ll_contains_loop.simps [code]
  ll_indexof_loop.simps [code]
  ll_itr_loop.simps [code]
  while_hasnext_next.simps [code]

subsection \<open>Example memories\<close>

text \<open>
  A memory holding one list of one-byte elements at address 0, with the two nodes 1 and 2
  that store the payloads at 10 and 20, a third payload at 30 whose first byte is that
  of the payload at 20, and two iterators, 5 on the first node and 6 on the last.
\<close>

definition mem2 :: mem where
  "mem2 =
     \<lparr>lists = [0 \<mapsto> \<lparr>s_first = Some 1, s_last = Some 2, s_elem_size = 1\<rparr>],
      nodes = [1 \<mapsto> \<lparr>element = Some 10, index = 0, nextp = Some 2\<rparr>,
               2 \<mapsto> \<lparr>element = Some 20, index = 1, nextp = None\<rparr>],
      iters = [5 \<mapsto> \<lparr>s_next = Some 1\<rparr>, 6 \<mapsto> \<lparr>s_next = Some 2\<rparr>],
      objs = [10 \<mapsto> [7], 20 \<mapsto> [9], 30 \<mapsto> [9, 4]]\<rparr>"

definition xs2 :: "(addr \<times> ptr) list" where
  "xs2 = [(1, Some 10), (2, Some 20)]"

text \<open>A memory with the two payloads and no list yet.\<close>

definition mem0 :: mem where
  "mem0 = \<lparr>lists = Map.empty, nodes = Map.empty, iters = Map.empty,
            objs = [10 \<mapsto> [7], 20 \<mapsto> [9]]\<rparr>"

text \<open>
  A memory holding one valid list of \<open>N\<close> nodes at the addresses \<open>0 .. N - 1\<close>, none
  of which stores an element; the header is at address 0 of the header heap.
\<close>

definition chain_nodes :: "nat \<Rightarrow> addr \<rightharpoonup> node_s" where
  "chain_nodes N a =
     (if a < N then
        Some \<lparr>element = None, index = int a,
              nextp = (if Suc a < N then Some (Suc a) else None)\<rparr>
      else None)"

definition chain_mem :: "nat \<Rightarrow> mem" where
  "chain_mem N =
     \<lparr>lists = [0 \<mapsto> \<lparr>s_first = (if N = 0 then None else Some 0),
                       s_last = (if N = 0 then None else Some (N - 1)),
                       s_elem_size = 1\<rparr>],
      nodes = chain_nodes N, iters = Map.empty, objs = Map.empty\<rparr>"

definition chain_xs :: "nat \<Rightarrow> (addr \<times> ptr) list" where
  "chain_xs N = map (\<lambda>a. (a, None)) [0..<N]"

section \<open>Properties\<close>

subsection \<open>C integers\<close>

lemma wrap_int_id: "INT_MIN \<le> x \<Longrightarrow> x \<le> INT_MAX \<Longrightarrow> wrap_int x = x"
  by (simp add: wrap_int_def INT_MIN_def INT_MAX_def)

lemma wrap_int_le: "0 \<le> x \<Longrightarrow> wrap_int x \<le> x"
proof -
  assume "0 \<le> x"
  then have "(x + 2147483648) mod 4294967296 \<le> x + 2147483648"
    by (intro zmod_le_nonneg_dividend) simp
  then show ?thesis by (simp add: wrap_int_def)
qed

subsection \<open>Paths\<close>

lemma path_last:
  "path h p k xs None \<Longrightarrow> xs \<noteq> [] \<Longrightarrow>
     \<exists>n. h (fst (last xs)) = Some n \<and> element n = snd (last xs) \<and>
         index n = k + int (length xs) - 1 \<and> nextp n = None"
proof (induction xs arbitrary: p k)
  case Nil
  then show ?case by simp
next
  case (Cons x xs)
  show ?case
  proof (cases "xs = []")
    case True
    with Cons.prems show ?thesis by (auto split: option.splits)
  next
    case False
    from Cons.prems obtain n where n: "h (fst x) = Some n" "path h (nextp n) (k + 1) xs None"
      by (auto split: option.splits)
    from Cons.IH [OF n(2) False] False show ?thesis by auto
  qed
qed

lemma path_append:
  "path h p k (xs @ ys) q = (\<exists>r. path h p k xs r \<and> path h r (k + int (length xs)) ys q)"
proof (induction xs arbitrary: p k)
  case Nil
  show ?case by simp
next
  case (Cons x xs)
  show ?case by (cases "h (fst x)") (simp_all add: Cons.IH add.assoc)
qed

lemma path_upd_other:
  "a \<notin> fst ` set xs \<Longrightarrow> path (h(a := v)) p k xs q = path h p k xs q"
  by (induction xs arbitrary: p k) (auto split: option.splits)

lemma path_nth:
  "path h p k xs q \<Longrightarrow> i < length xs \<Longrightarrow>
     \<exists>n. h (fst (xs ! i)) = Some n \<and> element n = snd (xs ! i) \<and> index n = k + int i \<and>
         nextp n = (if Suc i < length xs then Some (fst (xs ! Suc i)) else q)"
proof (induction xs arbitrary: p k i)
  case Nil
  then show ?case by simp
next
  case (Cons x xs)
  from Cons.prems(1) obtain n where n: "h (fst x) = Some n" "element n = snd x" "index n = k"
    "path h (nextp n) (k + 1) xs q"
    by (auto split: option.splits)
  show ?case
  proof (cases i)
    case 0
    show ?thesis
    proof (cases xs)
      case Nil
      with 0 n show ?thesis by simp
    next
      case (Cons y ys)
      with 0 n show ?thesis by (auto split: option.splits)
    qed
  next
    case (Suc j)
    with Cons.prems(2) have "j < length xs" by simp
    from Cons.IH [OF n(4) this] Suc show ?thesis by auto
  qed
qed

lemma path_head:
  "path h p k xs q \<Longrightarrow> xs \<noteq> [] \<Longrightarrow> p = Some (fst (hd xs))"
  by (cases xs) auto

lemma path_distinct:
  assumes "path h p k xs q"
  shows "distinct (map fst xs)"
proof -
  { fix i j assume ij: "i < length xs" "j < length xs" "fst (xs ! i) = fst (xs ! j)"
    from path_nth [OF assms ij(1)] path_nth [OF assms ij(2)] ij(3)
    have "i = j" by auto }
  then show ?thesis by (auto simp: distinct_conv_nth)
qed

lemma path_cong:
  "(\<And>a. a \<in> fst ` set xs \<Longrightarrow> h' a = h a) \<Longrightarrow> path h' p k xs q = path h p k xs q"
  by (induction xs arbitrary: p k) (auto split: option.splits)

lemma path_dom:
  assumes "path h p k xs q"
  shows "fst ` set xs \<subseteq> dom h"
proof
  fix a assume "a \<in> fst ` set xs"
  then obtain i where "i < length xs" "a = fst (xs ! i)" by (auto simp: in_set_conv_nth)
  with path_nth [OF assms, of i] show "a \<in> dom h" by auto
qed

lemma path_split:
  assumes "path h p k xs q" "j \<le> length xs"
  shows "path h p k (take j xs) (if j < length xs then Some (fst (xs ! j)) else q) \<and>
         path h (if j < length xs then Some (fst (xs ! j)) else q) (k + int j) (drop j xs) q"
proof -
  from assms(1) have "path h p k (take j xs @ drop j xs) q" by simp
  then obtain r where r: "path h p k (take j xs) r" "path h r (k + int (length (take j xs))) (drop j xs) q"
    unfolding path_append by blast
  from assms(2) have len: "length (take j xs) = j" by simp
  show ?thesis
  proof (cases "j < length xs")
    case True
    then have "drop j xs \<noteq> []" by simp
    from path_head [OF r(2) this] True have "r = Some (fst (xs ! j))"
      by (simp add: hd_drop_conv_nth)
    with r len True show ?thesis by simp
  next
    case False
    with assms(2) have "drop j xs = []" by simp
    with r have "r = q" by simp
    with r len False show ?thesis by simp
  qed
qed

lemma fun_upd_lam: "(\<lambda>x. if x = a then b else f x) = f(a := b)"
  by (simp add: fun_upd_def)

lemma path_upd_elem:
  "path h p k xs q \<Longrightarrow> i < length xs \<Longrightarrow> a = fst (xs ! i) \<Longrightarrow> h a = Some n \<Longrightarrow>
     path (h(a \<mapsto> n\<lparr>element := e\<rparr>)) p k (xs[i := (a, e)]) q"
proof (induction xs arbitrary: p k i)
  case Nil
  then show ?case by simp
next
  case (Cons x xs)
  from path_distinct [OF Cons.prems(1)] have d: "fst x \<notin> fst ` set xs" by auto
  from Cons.prems(1) obtain n0 where n0: "p = Some (fst x)" "h (fst x) = Some n0"
    "element n0 = snd x" "index n0 = k" "path h (nextp n0) (k + 1) xs q"
    by (auto split: option.splits)
  show ?case
  proof (cases i)
    case 0
    with Cons.prems n0 have "n = n0" "a = fst x" by simp_all
    with 0 n0 d show ?thesis by (simp add: fun_upd_lam path_upd_other)
  next
    case (Suc j)
    with Cons.prems have j: "j < length xs" "a = fst (xs ! j)" by auto
    from j d have ne: "a \<noteq> fst x" by (metis image_eqI nth_mem)
    from Cons.IH [OF n0(5) j Cons.prems(4)] Suc n0 ne show ?thesis by simp
  qed
qed

lemma path_set_end:
  "path h p k xs q \<Longrightarrow> xs \<noteq> [] \<Longrightarrow> a = fst (last xs) \<Longrightarrow> h a = Some n \<Longrightarrow>
     path (h(a \<mapsto> n\<lparr>nextp := r\<rparr>)) p k xs r"
proof (induction xs arbitrary: p k)
  case Nil
  then show ?case by simp
next
  case (Cons x xs)
  from path_distinct [OF Cons.prems(1)] have d: "fst x \<notin> fst ` set xs" by auto
  from Cons.prems(1) obtain n0 where n0: "p = Some (fst x)" "h (fst x) = Some n0"
    "element n0 = snd x" "index n0 = k" "path h (nextp n0) (k + 1) xs q"
    by (auto split: option.splits)
  show ?case
  proof (cases "xs = []")
    case True
    with Cons.prems n0 show ?thesis by simp
  next
    case False
    with Cons.prems have a: "a = fst (last xs)" by simp
    with False d have ne: "a \<noteq> fst x" by (metis image_eqI last_in_set)
    from Cons.IH [OF n0(5) False a Cons.prems(4)] n0 ne show ?thesis by (simp add: fun_upd_lam)
  qed
qed

subsection \<open>Validity and size\<close>

lemma ll_wf_D:
  assumes "ll_wf m l xs"
  obtains L where "lists m l = Some L" "path (nodes m) (s_first L) 0 xs None"
    "s_last L = (if xs = [] then None else Some (fst (last xs)))"
  using assms by (auto simp: ll_wf_def split: option.splits)

lemma ll_size_wf_wrap:
  assumes "ll_wf m l xs"
  shows "ll_size m (Some l) = Inr (wrap_int (int (length xs)))"
proof -
  from assms obtain L where L: "lists m l = Some L" "path (nodes m) (s_first L) 0 xs None"
    "s_last L = (if xs = [] then None else Some (fst (last xs)))"
    by (rule ll_wf_D)
  show ?thesis
  proof (cases "xs = []")
    case True
    with L show ?thesis by (simp add: ll_size_def get_list_def wrap_int_def)
  next
    case False
    from path_last [OF L(2) False] obtain n where
      "nodes m (fst (last xs)) = Some n" "index n = int (length xs) - 1" by auto
    with L False show ?thesis by (simp add: ll_size_def get_list_def get_node_def)
  qed
qed

lemma ll_size_wf:
  assumes "ll_wf m l xs" "int (length xs) \<le> INT_MAX"
  shows "ll_size m (Some l) = Inr (int (length xs))"
  using ll_size_wf_wrap [OF assms(1)] assms(2) by (simp add: wrap_int_id INT_MIN_def)

lemma ll_size_le:
  assumes "ll_wf m l xs" "ll_size m (Some l) = Inr sz"
  shows "sz \<le> int (length xs)"
  using ll_size_wf_wrap [OF assms(1)] assms(2) wrap_int_le [of "int (length xs)"] by simp

lemma ll_wf_alloc:
  assumes "ll_wf m l xs" "nodes m a = None"
  shows "a \<notin> fst ` set xs" and "ll_wf (m\<lparr>nodes := (nodes m)(a \<mapsto> n)\<rparr>) l xs"
proof -
  from assms(1) obtain L where L: "lists m l = Some L" "path (nodes m) (s_first L) 0 xs None"
    "s_last L = (if xs = [] then None else Some (fst (last xs)))"
    by (rule ll_wf_D)
  from path_dom [OF L(2)] assms(2) show a: "a \<notin> fst ` set xs" by auto
  with L show "ll_wf (m\<lparr>nodes := (nodes m)(a \<mapsto> n)\<rparr>) l xs"
    by (simp add: ll_wf_def path_upd_other)
qed

lemma ll_wf_upd_elem:
  assumes "ll_wf m l xs" "i < length xs" "a = fst (xs ! i)" "nodes m a = Some n"
  shows "ll_wf (m\<lparr>nodes := (nodes m)(a \<mapsto> n\<lparr>element := e\<rparr>)\<rparr>) l (xs[i := (a, e)])"
proof -
  from assms(1) obtain L where L: "lists m l = Some L" "path (nodes m) (s_first L) 0 xs None"
    "s_last L = (if xs = [] then None else Some (fst (last xs)))"
    by (rule ll_wf_D)
  from assms(2) have ne: "xs \<noteq> []" by auto
  then have "fst (last (xs[i := (a, e)])) = fst (last xs)"
    using assms(2,3) by (cases "i = length xs - 1") (simp_all add: last_conv_nth)
  with L path_upd_elem [OF L(2) assms(2,3,4), of e] ne show ?thesis
    by (simp add: ll_wf_def)
qed

lemma mem2_wf: "ll_wf mem2 0 xs2"
  by (simp add: ll_wf_def mem2_def xs2_def)

lemma mem2_size: "ll_size mem2 (Some 0) = Inr 2"
  by (simp add: ll_size_def get_list_def get_node_def mem2_def wrap_int_def)

lemma chain_path:
  "k \<le> N \<Longrightarrow>
     path (chain_nodes N) (if k < N then Some k else None) (int k)
       (map (\<lambda>a. (a, None)) [k..<N]) None"
proof (induction "N - k" arbitrary: k)
  case 0
  then show ?case by simp
next
  case (Suc d)
  then have k: "k < N" "d = N - Suc k" "Suc k \<le> N" by auto
  from Suc.hyps(1) [OF k(2,3)] k(1) show ?case
    by (simp add: upt_conv_Cons chain_nodes_def add.commute)
qed

lemma chain_wf: "ll_wf (chain_mem N) 0 (chain_xs N)"
proof -
  have "path (chain_nodes N) (if N = 0 then None else Some 0) 0 (chain_xs N) None"
    using chain_path [of 0 N] by (cases "N = 0") (simp_all add: chain_xs_def)
  moreover have "N \<noteq> 0 \<Longrightarrow> fst (last (chain_xs N)) = N - 1"
    by (simp add: chain_xs_def last_map)
  ultimately show ?thesis by (cases "N = 0") (simp_all add: ll_wf_def chain_mem_def chain_xs_def)
qed

text \<open>
  C5, as the code has it. On a valid list of at most \<open>INT_MAX\<close> nodes \<open>ll_size\<close>
  returns the number of nodes, and this number is the cached index of the last node plus
  one when the list is not empty and 0 when it is empty; on the NULL list reference it
  returns -1.
\<close>

theorem ll_size_correct:
  "ll_size m None = Inr (- 1) \<and>
   (ll_wf m l xs \<and> int (length xs) \<le> INT_MAX \<longrightarrow>
      ll_size m (Some l) = Inr (int (length xs)) \<and>
      (xs = [] \<longrightarrow> ll_size m (Some l) = Inr 0) \<and>
      (xs \<noteq> [] \<longrightarrow> (\<exists>n. nodes m (fst (last xs)) = Some n \<and>
                           ll_size m (Some l) = Inr (index n + 1))))"
proof (intro conjI impI)
  show "ll_size m None = Inr (- 1)" by (simp add: ll_size_def)
next
  assume a: "ll_wf m l xs \<and> int (length xs) \<le> INT_MAX"
  then obtain L :: llist_s where L: "path (nodes m) (s_first L) 0 xs None"
    by (auto simp: ll_wf_def split: option.splits)
  from a show sz: "ll_size m (Some l) = Inr (int (length xs))"
    by (simp add: ll_size_wf)
  { assume "xs = []"
    with sz show "ll_size m (Some l) = Inr 0" by simp }
  { assume ne: "xs \<noteq> []"
    from path_last [OF L ne] obtain n where
      "nodes m (fst (last xs)) = Some n" "index n = int (length xs) - 1" by auto
    with sz show "\<exists>n. nodes m (fst (last xs)) = Some n \<and> ll_size m (Some l) = Inr (index n + 1)"
      by simp }
qed

theorem ll_size_correct_witness:
  "ll_wf mem2 0 xs2 \<and> int (length xs2) \<le> INT_MAX \<and>
   ll_size mem2 (Some 0) = Inr 2 \<and> ll_size mem2 None = Inr (- 1)"
proof -
  have b: "int (length xs2) \<le> INT_MAX" by (simp add: xs2_def INT_MAX_def)
  from ll_size_correct [of mem2 0 xs2] mem2_wf b show ?thesis by (simp add: xs2_def)
qed

text \<open>
  The claim as stated covers every valid list. On the valid list of \<open>2^31\<close> nodes,
  whose indices \<open>0 .. INT_MAX\<close> all fit the index field, the addition in \<open>ll_size\<close>
  overflows and the result is \<open>INT_MIN\<close>, not the number of nodes.
\<close>

theorem ll_size_overflow_counterexample:
  "ll_wf (chain_mem 2147483648) 0 (chain_xs 2147483648) \<and>
   int (length (chain_xs 2147483648)) = 2147483648 \<and>
   ll_size (chain_mem 2147483648) (Some 0) = Inr (- 2147483648)"
proof -
  have len: "int (length (chain_xs 2147483648)) = 2147483648" by (simp add: chain_xs_def)
  from ll_size_wf_wrap [OF chain_wf, of 2147483648]
  have "ll_size (chain_mem 2147483648) (Some 0) = Inr (- 2147483648)"
    unfolding len by (simp add: wrap_int_def)
  with chain_wf len show ?thesis by simp
qed

subsection \<open>Lookup\<close>

lemma ll_get_loop_path:
  "path (nodes m) p k xs None \<Longrightarrow> k \<le> idx \<Longrightarrow> idx < k + int (length xs) \<Longrightarrow>
     ll_get_loop m p idx = Some (Inr (snd (xs ! nat (idx - k))))"
proof (induction xs arbitrary: p k)
  case Nil
  then show ?case by simp
next
  case (Cons x xs)
  from Cons.prems(1) obtain n where n: "p = Some (fst x)" "nodes m (fst x) = Some n"
    "element n = snd x" "index n = k" "path (nodes m) (nextp n) (k + 1) xs None"
    by (auto split: option.splits)
  show ?case
  proof (cases "idx = k")
    case True
    with n show ?thesis
      by (subst ll_get_loop.simps) (simp add: get_node_def)
  next
    case False
    with Cons.prems have b: "k + 1 \<le> idx" "idx < k + 1 + int (length xs)" by auto
    have "nat (idx - k) = Suc (nat (idx - (k + 1)))" using b by linarith
    with Cons.IH [OF n(5) b] n False show ?thesis
      by (subst ll_get_loop.simps) (simp add: get_node_def)
  qed
qed

lemma ll_get_wf:
  assumes "ll_wf m l xs" "ll_size m (Some l) = Inr sz" "0 \<le> i" "i < sz"
  shows "ll_get m (Some l) i = Some (Inr (snd (xs ! nat i)))"
proof -
  from assms(1) obtain L where L: "lists m l = Some L" "path (nodes m) (s_first L) 0 xs None"
    by (rule ll_wf_D)
  from ll_size_le [OF assms(1,2)] assms(4) have "i < int (length xs)" by simp
  with ll_get_loop_path [OF L(2), of i] assms(3)
  have "ll_get_loop m (s_first L) i = Some (Inr (snd (xs ! nat i)))" by simp
  with assms(2,3,4) L show ?thesis
    by (simp add: ll_get_def get_list_def)
qed

subsection \<open>Replacement\<close>

lemma ll_set_loop_path:
  "path (nodes m) p k xs None \<Longrightarrow> k \<le> idx \<Longrightarrow> idx < k + int (length xs) \<Longrightarrow>
   a = fst (xs ! nat (idx - k)) \<Longrightarrow>
     \<exists>n. nodes m a = Some n \<and>
         ll_set_loop m p idx e =
           Some (Inr (snd (xs ! nat (idx - k)), m\<lparr>nodes := (nodes m)(a \<mapsto> n\<lparr>element := e\<rparr>)\<rparr>))"
proof (induction xs arbitrary: p k)
  case Nil
  then show ?case by simp
next
  case (Cons x xs)
  from Cons.prems(1) obtain n where n: "p = Some (fst x)" "nodes m (fst x) = Some n"
    "element n = snd x" "index n = k" "path (nodes m) (nextp n) (k + 1) xs None"
    by (auto split: option.splits)
  show ?case
  proof (cases "idx = k")
    case True
    with n Cons.prems(4) show ?thesis
      by (subst ll_set_loop.simps) (simp add: get_node_def upd_node_def)
  next
    case False
    with Cons.prems have b: "k + 1 \<le> idx" "idx < k + 1 + int (length xs)" by auto
    have s: "nat (idx - k) = Suc (nat (idx - (k + 1)))" using b by linarith
    with Cons.prems(4) have "a = fst (xs ! nat (idx - (k + 1)))" by simp
    from Cons.IH [OF n(5) b this] s n False show ?thesis
      by (subst ll_set_loop.simps) (simp add: get_node_def fun_upd_lam)
  qed
qed

lemma ll_set_wf:
  assumes "ll_wf m l xs" "ll_size m (Some l) = Inr sz" "0 \<le> i" "i < sz"
    "a = fst (xs ! nat i)"
  shows "\<exists>n. nodes m a = Some n \<and>
           ll_set m (Some l) i e =
             Some (Inr (snd (xs ! nat i), m\<lparr>nodes := (nodes m)(a \<mapsto> n\<lparr>element := e\<rparr>)\<rparr>))"
proof -
  from assms(1) obtain L where L: "lists m l = Some L" "path (nodes m) (s_first L) 0 xs None"
    by (rule ll_wf_D)
  from ll_size_le [OF assms(1,2)] assms(4) have "i < int (length xs)" by simp
  with ll_set_loop_path [OF L(2), of i a e] assms(2,3,4,5) L show ?thesis
    by (simp add: ll_set_def get_list_def)
qed

text \<open>
  C7. On a valid list and for an index \<open>i\<close> with \<open>0 \<le> i < size\<close>, \<open>ll_set\<close> returns the
  element reference that \<open>ll_get\<close> returned at \<open>i\<close> before the call, and \<open>ll_get\<close> at
  \<open>i\<close> after the call returns the new reference.
\<close>

theorem ll_set_get_roundtrip:
  assumes "ll_wf m l xs" and "ll_size m (Some l) = Inr sz" and "0 \<le> i" and "i < sz"
  shows "\<exists>old m'. ll_get m (Some l) i = Some (Inr old) \<and>
           ll_set m (Some l) i e2 = Some (Inr (old, m')) \<and>
           ll_get m' (Some l) i = Some (Inr e2)"
proof -
  from ll_size_le [OF assms(1,2)] assms(3,4) have i: "nat i < length xs" by simp
  define a where "a = fst (xs ! nat i)"
  from ll_set_wf [OF assms a_def, of e2] obtain n where
    n: "nodes m a = Some n"
    "ll_set m (Some l) i e2 =
       Some (Inr (snd (xs ! nat i), m\<lparr>nodes := (nodes m)(a \<mapsto> n\<lparr>element := e2\<rparr>)\<rparr>))"
    by blast
  let ?m' = "m\<lparr>nodes := (nodes m)(a \<mapsto> n\<lparr>element := e2\<rparr>)\<rparr>"
  have wf': "ll_wf ?m' l (xs[nat i := (a, e2)])"
    by (rule ll_wf_upd_elem [OF assms(1) i a_def n(1)])
  have size': "ll_size ?m' (Some l) = Inr sz"
    using ll_size_wf_wrap [OF wf'] ll_size_wf_wrap [OF assms(1)] assms(2) by simp
  from ll_get_wf [OF wf' size' assms(3,4)] i
  have "ll_get ?m' (Some l) i = Some (Inr e2)" by simp
  with n(2) ll_get_wf [OF assms] show ?thesis by blast
qed

theorem ll_set_get_roundtrip_witness:
  "ll_wf mem2 0 xs2 \<and> ll_size mem2 (Some 0) = Inr 2 \<and> (0::int) \<le> 1 \<and> (1::int) < 2 \<and>
   (\<exists>old m'. ll_get mem2 (Some 0) 1 = Some (Inr old) \<and>
      ll_set mem2 (Some 0) 1 (Some 10) = Some (Inr (old, m')) \<and>
      ll_get m' (Some 0) 1 = Some (Inr (Some 10)))"
proof -
  have s: "ll_size mem2 (Some 0) = Inr 2"
    by (simp add: ll_size_def get_list_def get_node_def mem2_def wrap_int_def)
  from ll_set_get_roundtrip [OF mem2_wf s, of 1 "Some 10"] mem2_wf s show ?thesis by simp
qed

text \<open>
  C10. On a valid list and for an index \<open>i\<close> with \<open>0 \<le> i < size\<close>, \<open>ll_set\<close> writes
  nothing but the element field of the node at position \<open>i\<close>: the list headers (hence
  the first and last references), the iterators and the payload objects are the same,
  every node keeps its cached index and its successor, every other node is untouched, the
  size is the same, the list is still valid, and \<open>ll_get\<close> at every \<open>j \<noteq> i\<close> returns
  what it returned before.
\<close>

theorem ll_set_frame:
  assumes "ll_wf m l xs" and "ll_size m (Some l) = Inr sz" and "0 \<le> i" and "i < sz"
  shows "\<exists>old m'. ll_set m (Some l) i e = Some (Inr (old, m')) \<and>
           lists m' = lists m \<and> iters m' = iters m \<and> objs m' = objs m \<and>
           dom (nodes m') = dom (nodes m) \<and>
           (\<forall>a. map_option index (nodes m' a) = map_option index (nodes m a)) \<and>
           (\<forall>a. map_option nextp (nodes m' a) = map_option nextp (nodes m a)) \<and>
           (\<forall>a. a \<noteq> fst (xs ! nat i) \<longrightarrow> nodes m' a = nodes m a) \<and>
           ll_size m' (Some l) = ll_size m (Some l) \<and>
           ll_wf m' l (xs[nat i := (fst (xs ! nat i), e)]) \<and>
           (\<forall>j. j \<noteq> i \<longrightarrow> ll_get m' (Some l) j = ll_get m (Some l) j)"
proof -
  from ll_size_le [OF assms(1,2)] assms(3,4) have i: "0 \<le> i" "nat i < length xs" by simp_all
  define a where "a = fst (xs ! nat i)"
  from ll_set_wf [OF assms a_def, of e] obtain n where
    n: "nodes m a = Some n"
    "ll_set m (Some l) i e =
       Some (Inr (snd (xs ! nat i), m\<lparr>nodes := (nodes m)(a \<mapsto> n\<lparr>element := e\<rparr>)\<rparr>))"
    by blast
  define m' where "m' = m\<lparr>nodes := (nodes m)(a \<mapsto> n\<lparr>element := e\<rparr>)\<rparr>"
  have wf': "ll_wf m' l (xs[nat i := (a, e)])"
    unfolding m'_def by (rule ll_wf_upd_elem [OF assms(1) i(2) a_def n(1)])
  have size: "ll_size m' (Some l) = ll_size m (Some l)"
    using ll_size_wf_wrap [OF wf'] ll_size_wf_wrap [OF assms(1)] by simp
  with assms(2) have size': "ll_size m' (Some l) = Inr sz" by simp
  have get: "ll_get m' (Some l) j = ll_get m (Some l) j" if "j \<noteq> i" for j
  proof (cases "0 \<le> j \<and> j < sz")
    case True
    with that i have "nat j \<noteq> nat i" by auto
    with ll_get_wf [OF wf' size', of j] ll_get_wf [OF assms(1,2), of j] True
    show ?thesis by simp
  next
    case False
    with size' assms(2) show ?thesis by (auto simp: ll_get_def)
  qed
  have "lists m' = lists m" "iters m' = iters m" "objs m' = objs m"
    by (simp_all add: m'_def)
  moreover have "dom (nodes m') = dom (nodes m)" using n(1) by (auto simp: m'_def)
  moreover have "\<forall>b. map_option index (nodes m' b) = map_option index (nodes m b)"
    using n(1) by (simp add: m'_def)
  moreover have "\<forall>b. map_option nextp (nodes m' b) = map_option nextp (nodes m b)"
    using n(1) by (simp add: m'_def)
  moreover have "\<forall>b. b \<noteq> fst (xs ! nat i) \<longrightarrow> nodes m' b = nodes m b"
    by (simp add: m'_def a_def)
  moreover have "ll_set m (Some l) i e = Some (Inr (snd (xs ! nat i), m'))"
    using n(2) by (simp add: m'_def)
  moreover have "ll_wf m' l (xs[nat i := (fst (xs ! nat i), e)])"
    using wf' by (simp add: a_def)
  ultimately show ?thesis using size get by blast
qed

theorem ll_set_frame_witness:
  "ll_wf mem2 0 xs2 \<and> ll_size mem2 (Some 0) = Inr 2 \<and> (0::int) \<le> 0 \<and> (0::int) < 2 \<and>
   (\<exists>old m'. ll_set mem2 (Some 0) 0 (Some 20) = Some (Inr (old, m')) \<and>
      lists m' = lists mem2 \<and> ll_size m' (Some 0) = Inr 2 \<and>
      ll_wf m' 0 [(1, Some 20), (2, Some 20)] \<and>
      ll_get m' (Some 0) 1 = ll_get mem2 (Some 0) 1)"
proof -
  have s: "ll_size mem2 (Some 0) = Inr 2"
    by (simp add: ll_size_def get_list_def get_node_def mem2_def wrap_int_def)
  from ll_set_frame [OF mem2_wf s, of 0 "Some 20"] obtain old m' where
    "ll_set mem2 (Some 0) 0 (Some 20) = Some (Inr (old, m'))" "lists m' = lists mem2"
    "ll_size m' (Some 0) = ll_size mem2 (Some 0)"
    "ll_wf m' 0 (xs2[nat 0 := (fst (xs2 ! nat 0), Some 20)])"
    "\<forall>j. j \<noteq> 0 \<longrightarrow> ll_get m' (Some 0) j = ll_get mem2 (Some 0) j"
    by auto
  with mem2_wf s show ?thesis by (auto simp: xs2_def)
qed

subsection \<open>Insertion\<close>

lemma ll_add_reindex_path:
  "path (nodes m) p k xs None \<Longrightarrow> 0 \<le> k \<Longrightarrow> k + int (length xs) \<le> INT_MAX \<Longrightarrow>
     \<exists>m'. ll_add_reindex m p = Some (Inr m') \<and> path (nodes m') p (k + 1) xs None \<and>
          lists m' = lists m \<and> iters m' = iters m \<and> objs m' = objs m \<and>
          (\<forall>b. b \<notin> fst ` set xs \<longrightarrow> nodes m' b = nodes m b)"
proof (induction xs arbitrary: m p k)
  case Nil
  then show ?case by (subst ll_add_reindex.simps) simp
next
  case (Cons x xs)
  from path_distinct [OF Cons.prems(1)] have d: "fst x \<notin> fst ` set xs" by auto
  from Cons.prems(1) obtain n where n: "p = Some (fst x)" "nodes m (fst x) = Some n"
    "element n = snd x" "index n = k" "path (nodes m) (nextp n) (k + 1) xs None"
    by (auto split: option.splits)
  define m1 where "m1 = m\<lparr>nodes := (nodes m)(fst x \<mapsto> n\<lparr>index := index n + 1\<rparr>)\<rparr>"
  from Cons.prems(2,3) n(4) have w: "wrap_int (index n + 1) = index n + 1"
    by (intro wrap_int_id) (simp_all add: INT_MIN_def)
  from Cons.prems(2,3) have b: "0 \<le> k + 1" "k + 1 + int (length xs) \<le> INT_MAX" by simp_all
  have p1: "path (nodes m1) (nextp n) (k + 1) xs None"
    using n(5) d by (simp add: m1_def path_upd_other)
  from Cons.IH [OF p1 b] obtain m' where m': "ll_add_reindex m1 (nextp n) = Some (Inr m')"
    "path (nodes m') (nextp n) (k + 1 + 1) xs None" "lists m' = lists m1" "iters m' = iters m1"
    "objs m' = objs m1" "\<forall>b. b \<notin> fst ` set xs \<longrightarrow> nodes m' b = nodes m1 b"
    by blast
  from m'(6) d have x: "nodes m' (fst x) = Some (n\<lparr>index := index n + 1\<rparr>)"
    by (simp add: m1_def)
  have "ll_add_reindex m p = Some (Inr m')"
    using n(1,2) m'(1) w
    by (subst ll_add_reindex.simps) (simp add: upd_node_def get_node_def m1_def)
  moreover have "path (nodes m') p (k + 1) (x # xs) None"
    using x n m'(2) by simp
  moreover have "\<forall>b. b \<notin> fst ` set (x # xs) \<longrightarrow> nodes m' b = nodes m b"
    using m'(6) by (simp add: m1_def)
  ultimately show ?case using m'(3,4,5) by (simp add: m1_def)
qed

lemma ll_add_walk_path:
  "path (nodes m) p k xs None \<Longrightarrow> k < idx \<Longrightarrow> idx < k + int (length xs) \<Longrightarrow>
   j = nat (idx - k) \<Longrightarrow> a \<notin> fst ` set xs \<Longrightarrow> nodes m a = Some nn \<Longrightarrow>
   t = fst (xs ! (j - 1)) \<Longrightarrow> s = fst (xs ! j) \<Longrightarrow>
     \<exists>tn. nodes m t = Some tn \<and>
       ll_add_walk m p (Some a) idx =
         Some (Inr (m\<lparr>nodes := (nodes m)(a \<mapsto> nn\<lparr>nextp := Some s\<rparr>, t \<mapsto> tn\<lparr>nextp := Some a\<rparr>)\<rparr>))"
proof (induction xs arbitrary: p k j)
  case Nil
  then show ?case by simp
next
  case (Cons x xs)
  from Cons.prems(1) obtain n where n: "p = Some (fst x)" "nodes m (fst x) = Some n"
    "index n = k" "path (nodes m) (nextp n) (k + 1) xs None"
    by (auto split: option.splits)
  from Cons.prems(2,3) have ne: "xs \<noteq> []" by auto
  from path_nth [OF n(4), of 0] ne obtain sn where sn: "nodes m (fst (xs ! 0)) = Some sn"
    "index sn = k + 1" by auto
  from path_head [OF n(4) ne] ne have nx: "nextp n = Some (fst (xs ! 0))"
    by (simp add: hd_conv_nth)
  from Cons.prems(5) have ax: "a \<noteq> fst x" by auto
  show ?case
  proof (cases "idx = k + 1")
    case True
    with Cons.prems(4) have j: "j = 1" by simp
    with Cons.prems(7,8) have ts: "t = fst x" "s = fst (xs ! 0)" by simp_all
    from n sn nx True ax Cons.prems(6) ts show ?thesis
      by (subst ll_add_walk.simps) (simp add: get_node_def upd_node_def)
  next
    case False
    with Cons.prems(2,3) have b: "k + 1 < idx" "idx < k + 1 + int (length xs)" by auto
    define j' where "j' = nat (idx - (k + 1))"
    from b Cons.prems(4) have j: "j = Suc j'" "j' \<ge> 1" by (auto simp: j'_def)
    then obtain j'' where j'': "j' = Suc j''" by (cases j') auto
    from Cons.prems(7,8) j j'' have ts: "t = fst (xs ! (j' - 1))" "s = fst (xs ! j')" by simp_all
    from Cons.prems(5) have a: "a \<notin> fst ` set xs" by auto
    from Cons.IH [OF n(4) b j'_def a Cons.prems(6) ts] obtain tn where
      tn: "nodes m t = Some tn"
      "ll_add_walk m (nextp n) (Some a) idx =
         Some (Inr (m\<lparr>nodes := (nodes m)(a \<mapsto> nn\<lparr>nextp := Some s\<rparr>, t \<mapsto> tn\<lparr>nextp := Some a\<rparr>)\<rparr>))"
      by blast
    have "ll_add_walk m p (Some a) idx = ll_add_walk m (nextp n) (Some a) idx"
      using n sn nx False by (subst ll_add_walk.simps) (simp add: get_node_def)
    with tn show ?thesis by (simp add: fun_upd_lam)
  qed
qed

text \<open>The four branches of \<open>ll_add\<close>, on the memory that holds the initialised node.\<close>

lemma ll_add_unfold:
  assumes "0 \<le> i" "ll_size m (Some l) = Inr sz" "i \<le> sz"
    and "m0 = m\<lparr>nodes := (nodes m)(a \<mapsto> \<lparr>element = e, index = i, nextp = None\<rparr>)\<rparr>"
    and "ll_size m0 (Some l) = Inr sz" "get_list m0 (Some l) = Inr L"
  shows "ll_add m (Some a) (Some l) i e =
    (if sz = 0 then
       (case upd_list m0 (Some l) (\<lambda>L. L\<lparr>s_first := Some a\<rparr>) of Inl f \<Rightarrow> Some (Inl f) | Inr m1 \<Rightarrow>
       (case upd_list m1 (Some l) (\<lambda>L. L\<lparr>s_last := Some a\<rparr>) of Inl f \<Rightarrow> Some (Inl f) | Inr m2 \<Rightarrow>
          Some (Inr (1, m2))))
     else if i = sz then
       (case upd_node m0 (s_last L) (\<lambda>n. n\<lparr>nextp := Some a\<rparr>) of Inl f \<Rightarrow> Some (Inl f) | Inr m1 \<Rightarrow>
       (case upd_list m1 (Some l) (\<lambda>L. L\<lparr>s_last := Some a\<rparr>) of Inl f \<Rightarrow> Some (Inl f) | Inr m2 \<Rightarrow>
          Some (Inr (1, m2))))
     else
       (case
          (if i = 0 then
             (case upd_node m0 (Some a) (\<lambda>n. n\<lparr>nextp := s_first L\<rparr>) of Inl f \<Rightarrow> Some (Inl f) | Inr m1 \<Rightarrow>
             (case upd_list m1 (Some l) (\<lambda>L. L\<lparr>s_first := Some a\<rparr>) of Inl f \<Rightarrow> Some (Inl f) | Inr m2 \<Rightarrow>
                Some (Inr m2)))
           else ll_add_walk m0 (s_first L) (Some a) i)
        of None \<Rightarrow> None | Some (Inl f) \<Rightarrow> Some (Inl f) | Some (Inr m3) \<Rightarrow>
       (case get_node m3 (Some a) of Inl f \<Rightarrow> Some (Inl f) | Inr n \<Rightarrow>
       (case ll_add_reindex m3 (nextp n) of None \<Rightarrow> None | Some (Inl f) \<Rightarrow> Some (Inl f)
        | Some (Inr m4) \<Rightarrow> Some (Inr (1, m4))))))"
proof -
  have m0: "m\<lparr>nodes := (nodes m)(a \<mapsto> \<lparr>element = e, index = i, nextp = None\<rparr>)\<rparr> = m0"
    using assms(4) by simp
  show ?thesis
    apply (simp only: ll_add_def Let_def option.case m0)
    using assms(1,2,3,5,6)
    apply simp
    done
qed

lemma ll_add_wf:
  assumes wf: "ll_wf m l xs" and i: "0 \<le> i" "i \<le> int (length xs)" and fresh: "nodes m a = None"
    and bnd: "int (length xs) \<le> INT_MAX"
  shows "\<exists>m'. ll_add m (Some a) (Some l) i e = Some (Inr (1, m')) \<and>
           ll_wf m' l (take (nat i) xs @ (a, e) # drop (nat i) xs)"
proof -
  define nn where "nn = \<lparr>element = e, index = i, nextp = None\<rparr>"
  define m0 where "m0 = m\<lparr>nodes := (nodes m)(a \<mapsto> nn)\<rparr>"
  have m0_eq: "m0 = m\<lparr>nodes := (nodes m)(a \<mapsto> \<lparr>element = e, index = i, nextp = None\<rparr>)\<rparr>"
    by (simp add: m0_def nn_def)
  from ll_wf_alloc [OF wf fresh] have a: "a \<notin> fst ` set xs" and wf0: "ll_wf m0 l xs"
    by (simp_all add: m0_def)
  from wf0 obtain L where L: "lists m0 l = Some L" "path (nodes m0) (s_first L) 0 xs None"
    "s_last L = (if xs = [] then None else Some (fst (last xs)))"
    by (rule ll_wf_D)
  have gl: "get_list m0 (Some l) = Inr L" using L(1) by (simp add: get_list_def)
  have na: "nodes m0 a = Some nn" by (simp add: m0_def)
  note unf = ll_add_unfold [OF i(1) ll_size_wf [OF wf bnd] i(2) m0_eq ll_size_wf [OF wf0 bnd] gl]
  define j where "j = nat i"
  from i have j: "j \<le> length xs" "i = int j" by (simp_all add: j_def)
  consider (empty) "xs = []" | (append) "xs \<noteq> []" "j = length xs" | (front) "xs \<noteq> []" "j = 0"
    | (middle) "0 < j" "j < length xs"
    using j(1) by (cases "xs = []") (auto simp: le_less)
  then show ?thesis
  proof cases
    case empty
    with j have j0: "j = 0" "i = 0" by simp_all
    define m2 where "m2 = m0\<lparr>lists := (lists m0)(l \<mapsto> L\<lparr>s_first := Some a, s_last := Some a\<rparr>)\<rparr>"
    have "ll_add m (Some a) (Some l) i e = Some (Inr (1, m2))"
      unfolding unf using empty L(1) by (simp add: upd_list_def m2_def)
    moreover have "ll_wf m2 l [(a, e)]"
      using na j0 by (simp add: ll_wf_def m2_def nn_def)
    ultimately show ?thesis using empty j0 by simp
  next
    case append
    define t where "t = fst (last xs)"
    from path_last [OF L(2) append(1)] obtain tn where tn: "nodes m0 t = Some tn"
      by (auto simp: t_def)
    from a append(1) have ta: "t \<noteq> a" unfolding t_def by (metis image_eqI last_in_set)
    define h1 where "h1 = (nodes m0)(t \<mapsto> tn\<lparr>nextp := Some a\<rparr>)"
    define m2 where "m2 = m0\<lparr>nodes := h1, lists := (lists m0)(l \<mapsto> L\<lparr>s_last := Some a\<rparr>)\<rparr>"
    have "ll_add m (Some a) (Some l) i e = Some (Inr (1, m2))"
      unfolding unf using append L tn j
      by (simp add: upd_list_def upd_node_def m2_def h1_def t_def)
    moreover have "path h1 (s_first L) 0 xs (Some a)"
      unfolding h1_def by (rule path_set_end [OF L(2) append(1) t_def tn])
    moreover have "h1 a = Some nn" using na ta by (simp add: h1_def)
    ultimately show ?thesis using append j
      by (auto simp: ll_wf_def m2_def path_append nn_def)
  next
    case front
    with j have i0: "i = 0" by simp
    define h2 where "h2 = (nodes m0)(a \<mapsto> nn\<lparr>nextp := s_first L\<rparr>)"
    define m2 where "m2 = m0\<lparr>nodes := h2, lists := (lists m0)(l \<mapsto> L\<lparr>s_first := Some a\<rparr>)\<rparr>"
    have p2: "path (nodes m2) (s_first L) 0 xs None"
      using L(2) a by (simp add: m2_def h2_def path_upd_other)
    from bnd have b2: "(0::int) \<le> 0" "0 + int (length xs) \<le> INT_MAX" by simp_all
    from ll_add_reindex_path [OF p2 b2] obtain m4 where m4:
      "ll_add_reindex m2 (s_first L) = Some (Inr m4)" "path (nodes m4) (s_first L) (0 + 1) xs None"
      "lists m4 = lists m2" "\<forall>b. b \<notin> fst ` set xs \<longrightarrow> nodes m4 b = nodes m2 b"
      by blast
    have "ll_add m (Some a) (Some l) i e = Some (Inr (1, m4))"
      unfolding unf using front i0 j L(1) na m4(1)
      by (simp add: upd_list_def upd_node_def get_node_def m2_def h2_def)
    moreover from m4(4) a have "nodes m4 a = Some (nn\<lparr>nextp := s_first L\<rparr>)"
      by (simp add: m2_def h2_def)
    ultimately show ?thesis using front i0 m4(2,3) L
      by (auto simp: ll_wf_def m2_def nn_def)
  next
    case middle
    define t where "t = fst (xs ! (j - 1))"
    define s where "s = fst (xs ! j)"
    from middle j have ib: "0 < i" "i < 0 + int (length xs)" "j = nat (i - 0)" by simp_all
    from ll_add_walk_path [OF L(2) ib a na t_def s_def] obtain tn where tn: "nodes m0 t = Some tn"
      "ll_add_walk m0 (s_first L) (Some a) i =
         Some (Inr (m0\<lparr>nodes := (nodes m0)(a \<mapsto> nn\<lparr>nextp := Some s\<rparr>, t \<mapsto> tn\<lparr>nextp := Some a\<rparr>)\<rparr>))"
      by blast
    define h3 where "h3 = (nodes m0)(a \<mapsto> nn\<lparr>nextp := Some s\<rparr>, t \<mapsto> tn\<lparr>nextp := Some a\<rparr>)"
    define m3 where "m3 = m0\<lparr>nodes := h3\<rparr>"
    from middle have tk: "t \<in> fst ` set (take j xs)"
      unfolding t_def by (metis diff_less image_eqI nth_mem nth_take length_take min.absorb2
          less_imp_le zero_less_one)
    from path_distinct [OF L(2)] have "distinct (map fst (take j xs) @ map fst (drop j xs))"
      by (simp flip: map_append)
    then have disj: "fst ` set (take j xs) \<inter> fst ` set (drop j xs) = {}" by auto
    with tk have td: "t \<notin> fst ` set (drop j xs)" by auto
    from a have ad: "a \<notin> fst ` set (drop j xs)" and at: "a \<notin> fst ` set (take j xs)"
      by (auto dest: in_set_dropD in_set_takeD)
    from at tk have ta: "t \<noteq> a" by auto
    from path_split [OF L(2), of j] middle have
      pre: "path (nodes m0) (s_first L) 0 (take j xs) (Some s)" and
      suf: "path (nodes m0) (Some s) (int j) (drop j xs) None"
      by (simp_all add: s_def)
    have suf3: "path (nodes m3) (Some s) (int j) (drop j xs) None"
      using suf td ad by (simp add: m3_def h3_def path_upd_other)
    from bnd middle have b3: "0 \<le> int j" "int j + int (length (drop j xs)) \<le> INT_MAX"
      by simp_all
    from ll_add_reindex_path [OF suf3 b3] obtain m4 where m4:
      "ll_add_reindex m3 (Some s) = Some (Inr m4)" "path (nodes m4) (Some s) (int j + 1) (drop j xs) None"
      "lists m4 = lists m3" "\<forall>b. b \<notin> fst ` set (drop j xs) \<longrightarrow> nodes m4 b = nodes m3 b"
      by blast
    from middle have xne: "xs \<noteq> []" by auto
    have add: "ll_add m (Some a) (Some l) i e = Some (Inr (1, m4))"
      unfolding unf using middle xne j tn(2) ta m4(1)
      by (simp add: get_node_def m3_def h3_def)
    have a4: "nodes m4 a = Some (nn\<lparr>nextp := Some s\<rparr>)"
      using m4(4) ad ta by (simp add: m3_def h3_def)
    have tne: "take j xs \<noteq> []" using middle by auto
    have "last (take j xs) = take j xs ! (j - 1)"
      using middle xne by (simp add: last_conv_nth)
    also have "\<dots> = xs ! (j - 1)" using middle by simp
    finally have tl: "t = fst (last (take j xs))" by (simp add: t_def)
    from pre at have "path ((nodes m0)(a \<mapsto> nn\<lparr>nextp := Some s\<rparr>)) (s_first L) 0 (take j xs) (Some s)"
      by (simp add: path_upd_other)
    from path_set_end [OF this tne tl, of tn "Some a"] tn(1) ta
    have "path h3 (s_first L) 0 (take j xs) (Some a)" by (simp add: h3_def)
    moreover have "\<And>b. b \<in> fst ` set (take j xs) \<Longrightarrow> nodes m4 b = h3 b"
      using m4(4) disj by (auto simp: m3_def)
    ultimately have pre4: "path (nodes m4) (s_first L) 0 (take j xs) (Some a)"
      by (simp cong: path_cong)
    have len: "length (take j xs) = j" using middle by simp
    have "path (nodes m4) (s_first L) 0 (take j xs @ (a, e) # drop j xs) None"
      unfolding path_append using pre4 a4 m4(2) len j(2) by (auto simp: nn_def)
    moreover have "last (take j xs @ (a, e) # drop j xs) = last xs"
      using middle by simp
    ultimately have "ll_wf m4 l (take j xs @ (a, e) # drop j xs)"
      using m4(3) L(1,3) middle by (auto simp: ll_wf_def m3_def)
    with add show ?thesis by (simp add: j_def)
  qed
qed

text \<open>
  C6, as the code has it. On a valid list of fewer than \<open>INT_MAX\<close> nodes, for an
  index \<open>i\<close> with \<open>0 \<le> i \<le> size\<close>: when \<open>malloc\<close> returns an unused node,
  \<open>ll_add\<close> returns 1, the list is valid again with the new node at position \<open>i\<close>
  and one more element, and \<open>ll_get\<close> at \<open>i\<close> returns the inserted reference; when
  \<open>malloc\<close> returns \<open>NULL\<close>, \<open>ll_add\<close> returns 0 and the memory is unchanged.
\<close>

theorem ll_add_get:
  assumes "ll_wf m l xs" and "int (length xs) < INT_MAX"
    and "ll_size m (Some l) = Inr sz" and "0 \<le> i" and "i \<le> sz"
  shows "(nodes m a = None \<longrightarrow>
           (\<exists>m'. ll_add m (Some a) (Some l) i e = Some (Inr (1, m')) \<and>
                 ll_wf m' l (take (nat i) xs @ (a, e) # drop (nat i) xs) \<and>
                 ll_size m' (Some l) = Inr (sz + 1) \<and>
                 ll_get m' (Some l) i = Some (Inr e))) \<and>
         ll_add m None (Some l) i e = Some (Inr (0, m))"
proof (intro conjI impI)
  from assms(2) have bnd: "int (length xs) \<le> INT_MAX" by simp
  from assms(1,3) bnd have sz: "sz = int (length xs)" by (simp add: ll_size_wf)
  with assms have i: "0 \<le> i" "i \<le> int (length xs)" by auto
  from assms show "ll_add m None (Some l) i e = Some (Inr (0, m))"
    by (simp add: ll_add_def)
  assume fresh: "nodes m a = None"
  let ?ys = "take (nat i) xs @ (a, e) # drop (nat i) xs"
  from ll_add_wf [OF assms(1) i fresh bnd, of e] obtain m' where
    m': "ll_add m (Some a) (Some l) i e = Some (Inr (1, m'))" "ll_wf m' l ?ys"
    by blast
  have len: "int (length ?ys) = int (length xs) + 1" using i by simp
  with assms(2) have bnd': "int (length ?ys) \<le> INT_MAX" by simp
  from ll_size_wf [OF m'(2) bnd'] len sz have size': "ll_size m' (Some l) = Inr (sz + 1)"
    by simp
  have "?ys ! nat i = (a, e)" using i by (simp add: nth_append)
  with ll_get_wf [OF m'(2) size', of i] i sz have "ll_get m' (Some l) i = Some (Inr e)"
    by simp
  with size' show "\<exists>m'. ll_add m (Some a) (Some l) i e = Some (Inr (1, m')) \<and> ll_wf m' l ?ys \<and>
      ll_size m' (Some l) = Inr (sz + 1) \<and> ll_get m' (Some l) i = Some (Inr e)"
    using m' by blast
qed

theorem ll_add_get_witness:
  "ll_wf mem2 0 xs2 \<and> int (length xs2) < INT_MAX \<and> ll_size mem2 (Some 0) = Inr 2 \<and>
   (0::int) \<le> 1 \<and> (1::int) \<le> 2 \<and> nodes mem2 3 = None \<and>
   (\<exists>m'. ll_add mem2 (Some 3) (Some 0) 1 (Some 30) = Some (Inr (1, m')) \<and>
         ll_wf m' 0 [(1, Some 10), (3, Some 30), (2, Some 20)] \<and>
         ll_size m' (Some 0) = Inr 3 \<and>
         ll_get m' (Some 0) 1 = Some (Inr (Some 30)))"
proof -
  have f: "nodes mem2 3 = None" by (simp add: mem2_def)
  have b: "int (length xs2) < INT_MAX" by (simp add: xs2_def INT_MAX_def)
  from ll_add_get [OF mem2_wf b mem2_size, of 1 3 "Some 30"] f b mem2_wf mem2_size
  show ?thesis by (simp add: xs2_def)
qed

text \<open>
  The claim as stated promises success, and the element back, for every valid list and
  index. With an allocator that fails, \<open>ll_add\<close> on the valid two-element list returns
  0 at index 0. And on the valid list of \<open>INT_MAX\<close> nodes, \<open>ll_add\<close> at the end
  returns 1, but the size of the longer list overflows in \<open>ll_size\<close> and the following
  \<open>ll_get\<close> at the same index returns the null reference, not the inserted one.
\<close>

theorem ll_add_get_counterexample:
  "ll_wf mem2 0 xs2 \<and> ll_size mem2 (Some 0) = Inr 2 \<and>
   ll_add mem2 None (Some 0) 0 (Some 30) = Some (Inr (0, mem2)) \<and>
   ll_wf (chain_mem 2147483647) 0 (chain_xs 2147483647) \<and>
   ll_size (chain_mem 2147483647) (Some 0) = Inr 2147483647 \<and>
   nodes (chain_mem 2147483647) 2147483647 = None \<and>
   (case ll_add (chain_mem 2147483647) (Some 2147483647) (Some 0) 2147483647 (Some 5) of
      Some (Inr (r, m')) \<Rightarrow>
        r = 1 \<and> ll_wf m' 0 (chain_xs 2147483647 @ [(2147483647, Some 5)]) \<and>
        ll_size m' (Some 0) = Inr (- 2147483648) \<and>
        ll_get m' (Some 0) 2147483647 = Some (Inr None)
    | _ \<Rightarrow> False)"
proof -
  let ?N = "2147483647 :: nat"
  let ?ys = "take (nat 2147483647) (chain_xs ?N) @ (?N, Some 5) # drop (nat 2147483647) (chain_xs ?N)"
  have len: "int (length (chain_xs ?N)) = 2147483647" by (simp add: chain_xs_def)
  then have bnd: "int (length (chain_xs ?N)) \<le> INT_MAX" by (simp add: INT_MAX_def)
  have fresh: "nodes (chain_mem ?N) ?N = None" by (simp add: chain_mem_def chain_nodes_def)
  have size: "ll_size (chain_mem ?N) (Some 0) = Inr 2147483647"
    using ll_size_wf [OF chain_wf bnd] len by simp
  from ll_add_wf [OF chain_wf _ _ fresh bnd, of 2147483647 "Some 5"] len obtain m' where
    m': "ll_add (chain_mem ?N) (Some ?N) (Some 0) 2147483647 (Some 5) = Some (Inr (1, m'))"
    "ll_wf m' 0 ?ys"
    by auto
  have l2: "int (length ?ys) = 2147483648" by (simp add: chain_xs_def)
  have w: "wrap_int 2147483648 = - 2147483648" by (simp add: wrap_int_def)
  from ll_size_wf_wrap [OF m'(2)] have sz': "ll_size m' (Some 0) = Inr (- 2147483648)"
    by (simp only: l2 w)
  then have "ll_get m' (Some 0) 2147483647 = Some (Inr None)" by (simp add: ll_get_def)
  moreover have "?ys = chain_xs ?N @ [(?N, Some 5)]" by (simp add: chain_xs_def)
  with m'(2) have "ll_wf m' 0 (chain_xs ?N @ [(?N, Some 5)])" by simp
  ultimately show ?thesis
    using m'(1) sz' mem2_wf mem2_size chain_wf size fresh by (simp add: ll_add_def)
qed

subsection \<open>Removal\<close>

lemma ll_remove_reindex_path:
  "path (nodes m) p k xs None \<Longrightarrow> 0 < k \<Longrightarrow> k + int (length xs) \<le> INT_MAX + 1 \<Longrightarrow>
     \<exists>m'. ll_remove_reindex m p = Some (Inr m') \<and> path (nodes m') p (k - 1) xs None \<and>
          lists m' = lists m \<and> iters m' = iters m \<and> objs m' = objs m \<and>
          (\<forall>b. b \<notin> fst ` set xs \<longrightarrow> nodes m' b = nodes m b)"
proof (induction xs arbitrary: m p k)
  case Nil
  then show ?case by (subst ll_remove_reindex.simps) simp
next
  case (Cons x xs)
  from path_distinct [OF Cons.prems(1)] have d: "fst x \<notin> fst ` set xs" by auto
  from Cons.prems(1) obtain n where n: "p = Some (fst x)" "nodes m (fst x) = Some n"
    "element n = snd x" "index n = k" "path (nodes m) (nextp n) (k + 1) xs None"
    by (auto split: option.splits)
  define m1 where "m1 = m\<lparr>nodes := (nodes m)(fst x \<mapsto> n\<lparr>index := index n - 1\<rparr>)\<rparr>"
  from Cons.prems(2,3) n(4) have w: "wrap_int (index n - 1) = index n - 1"
    by (intro wrap_int_id) (simp_all add: INT_MIN_def)
  from Cons.prems(2,3) have b: "0 < k + 1" "k + 1 + int (length xs) \<le> INT_MAX + 1" by simp_all
  have p1: "path (nodes m1) (nextp n) (k + 1) xs None"
    using n(5) d by (simp add: m1_def path_upd_other)
  from Cons.IH [OF p1 b] obtain m' where m': "ll_remove_reindex m1 (nextp n) = Some (Inr m')"
    "path (nodes m') (nextp n) (k + 1 - 1) xs None" "lists m' = lists m1" "iters m' = iters m1"
    "objs m' = objs m1" "\<forall>b. b \<notin> fst ` set xs \<longrightarrow> nodes m' b = nodes m1 b"
    by blast
  from m'(6) d have x: "nodes m' (fst x) = Some (n\<lparr>index := index n - 1\<rparr>)"
    by (simp add: m1_def)
  have "ll_remove_reindex m p = Some (Inr m')"
    using n(1,2) m'(1) w
    by (subst ll_remove_reindex.simps) (simp add: upd_node_def get_node_def m1_def)
  moreover have "path (nodes m') p (k - 1) (x # xs) None"
    using x n m'(2) by simp
  moreover have "\<forall>b. b \<notin> fst ` set (x # xs) \<longrightarrow> nodes m' b = nodes m b"
    using m'(6) by (simp add: m1_def)
  ultimately show ?case using m'(3,4,5) by (simp add: m1_def)
qed

lemma ll_remove_walk_path:
  "path (nodes m) p k xs None \<Longrightarrow> k < idx \<Longrightarrow> idx < k + int (length xs) \<Longrightarrow>
   j = nat (idx - k) \<Longrightarrow> t = fst (xs ! (j - 1)) \<Longrightarrow> s = fst (xs ! j) \<Longrightarrow>
     \<exists>tn sn. nodes m t = Some tn \<and> nodes m s = Some sn \<and>
       ll_remove_walk m p idx =
         Some (Inr (m\<lparr>nodes := (nodes m)(t \<mapsto> tn\<lparr>nextp := nextp sn\<rparr>)\<rparr>, Some (Some s)))"
proof (induction xs arbitrary: p k j)
  case Nil
  then show ?case by simp
next
  case (Cons x xs)
  from Cons.prems(1) obtain n where n: "p = Some (fst x)" "nodes m (fst x) = Some n"
    "index n = k" "path (nodes m) (nextp n) (k + 1) xs None"
    by (auto split: option.splits)
  from Cons.prems(2,3) have ne: "xs \<noteq> []" by auto
  from path_nth [OF n(4), of 0] ne obtain sn where sn: "nodes m (fst (xs ! 0)) = Some sn"
    "index sn = k + 1" by auto
  from path_head [OF n(4) ne] ne have nx: "nextp n = Some (fst (xs ! 0))"
    by (simp add: hd_conv_nth)
  show ?case
  proof (cases "idx = k + 1")
    case True
    with Cons.prems(4) have j: "j = 1" by simp
    with Cons.prems(5,6) have ts: "t = fst x" "s = fst (xs ! 0)" by simp_all
    from n sn nx True ts show ?thesis
      by (subst ll_remove_walk.simps) (simp add: get_node_def upd_node_def)
  next
    case False
    with Cons.prems(2,3) have b: "k + 1 < idx" "idx < k + 1 + int (length xs)" by auto
    define j' where "j' = nat (idx - (k + 1))"
    from b Cons.prems(4) have j: "j = Suc j'" "j' \<ge> 1" by (auto simp: j'_def)
    then obtain j'' where j'': "j' = Suc j''" by (cases j') auto
    from Cons.prems(5,6) j j'' have ts: "t = fst (xs ! (j' - 1))" "s = fst (xs ! j')" by simp_all
    from Cons.IH [OF n(4) b j'_def ts] obtain tn sn' where
      tn: "nodes m t = Some tn" "nodes m s = Some sn'"
      "ll_remove_walk m (nextp n) idx =
         Some (Inr (m\<lparr>nodes := (nodes m)(t \<mapsto> tn\<lparr>nextp := nextp sn'\<rparr>)\<rparr>, Some (Some s)))"
      by blast
    have "ll_remove_walk m p idx = ll_remove_walk m (nextp n) idx"
      using n sn nx False by (subst ll_remove_walk.simps) (simp add: get_node_def)
    with tn show ?thesis by (simp add: fun_upd_lam)
  qed
qed

text \<open>The branches of \<open>ll_remove\<close> on a non-empty list and an index in range.\<close>

lemma ll_remove_unfold:
  assumes "0 \<le> i" "ll_size m (Some l) = Inr sz" "i < sz" "get_list m (Some l) = Inr L"
  shows "ll_remove m (Some l) i =
    (case
       (if i = 0 then
          (case get_node m (s_first L) of Inl f \<Rightarrow> Some (Inl f) | Inr tn \<Rightarrow>
          (case upd_list m (Some l) (\<lambda>L. L\<lparr>s_first := nextp tn\<rparr>) of Inl f \<Rightarrow> Some (Inl f) | Inr m1 \<Rightarrow>
             if nextp tn = None then
               (case upd_list m1 (Some l) (\<lambda>L. L\<lparr>s_last := nextp tn\<rparr>) of Inl f \<Rightarrow> Some (Inl f)
                | Inr m2 \<Rightarrow> Some (Inr (m2, Some (s_first L))))
             else Some (Inr (m1, Some (s_first L)))))
        else ll_remove_walk m (s_first L) i)
     of None \<Rightarrow> None | Some (Inl f) \<Rightarrow> Some (Inl f) | Some (Inr (m3, tgt)) \<Rightarrow>
    (case tgt of None \<Rightarrow> Some (Inl Uninit) | Some target \<Rightarrow>
    (case get_node m3 target of Inl f \<Rightarrow> Some (Inl f) | Inr n \<Rightarrow>
    (case ll_remove_reindex m3 (nextp n) of None \<Rightarrow> None | Some (Inl f) \<Rightarrow> Some (Inl f)
     | Some (Inr m4) \<Rightarrow>
    (case get_node m4 target of Inl f \<Rightarrow> Some (Inl f) | Inr n' \<Rightarrow>
    (case free_node m4 target of Inl f \<Rightarrow> Some (Inl f) | Inr m5 \<Rightarrow>
       Some (Inr (element n', m5))))))))"
  using assms unfolding ll_remove_def by simp

text \<open>
  What \<open>ll_remove\<close> does on a valid list at an index in range: it returns the element of
  the node at that position, frees the node, and leaves a chain from \<open>__first\<close> over the
  other nodes with contiguous indices. \<open>__last\<close> is written only when the list becomes
  empty.
\<close>

lemma ll_remove_chain:
  assumes wf: "ll_wf m l xs" and i: "0 \<le> i" "i < int (length xs)"
    and bnd: "int (length xs) \<le> INT_MAX"
  shows "\<exists>m' L'. ll_remove m (Some l) i = Some (Inr (snd (xs ! nat i), m')) \<and>
           lists m' l = Some L' \<and>
           path (nodes m') (s_first L') 0 (take (nat i) xs @ drop (Suc (nat i)) xs) None \<and>
           s_last L' = (if length xs = 1 then None else Some (fst (last xs))) \<and>
           nodes m' (fst (xs ! nat i)) = None \<and> iters m' = iters m \<and> objs m' = objs m"
proof -
  from wf obtain L where L: "lists m l = Some L" "path (nodes m) (s_first L) 0 xs None"
    "s_last L = (if xs = [] then None else Some (fst (last xs)))"
    by (rule ll_wf_D)
  have gl: "get_list m (Some l) = Inr L" using L(1) by (simp add: get_list_def)
  note unf = ll_remove_unfold [OF i(1) ll_size_wf [OF wf bnd] i(2) gl]
  define j where "j = nat i"
  from i have j: "j < length xs" "i = int j" by (simp_all add: j_def)
  then have xne: "xs \<noteq> []" by auto
  have xi: "snd (xs ! nat i) = snd (xs ! j)" by (simp add: j_def)
  define s where "s = fst (xs ! j)"
  from path_nth [OF L(2) j(1)] obtain sn where sn: "nodes m s = Some sn"
    "element sn = snd (xs ! j)"
    "nextp sn = (if Suc j < length xs then Some (fst (xs ! Suc j)) else None)"
    by (auto simp: s_def)
  from path_split [OF L(2), of "Suc j"] j(1) sn(3)
  have suf: "path (nodes m) (nextp sn) (int (Suc j)) (drop (Suc j) xs) None"
    by (simp add: Suc_le_eq)
  from path_distinct [OF L(2)] have dist: "distinct (map fst xs)" .
  from j(1) bnd have b3: "0 < int (Suc j)"
    "int (Suc j) + int (length (drop (Suc j) xs)) \<le> INT_MAX + 1"
    by simp_all
  have sd: "s \<notin> fst ` set (drop (Suc j) xs)"
  proof
    assume "s \<in> fst ` set (drop (Suc j) xs)"
    then obtain q where q: "q < length (drop (Suc j) xs)" "s = fst (drop (Suc j) xs ! q)"
      by (auto simp: in_set_conv_nth)
    then have "Suc j + q < length xs" "fst (xs ! (Suc j + q)) = fst (xs ! j)"
      by (auto simp: s_def)
    with dist j(1) show False by (auto simp: distinct_conv_nth)
  qed
  show ?thesis
  proof (cases "j = 0")
    case True
    with j have i0: "i = 0" by simp
    from path_head [OF L(2) xne] xne True have f: "s_first L = Some s"
      by (simp add: s_def hd_conv_nth)
    define L' where "L' = (if nextp sn = None then L\<lparr>s_first := nextp sn, s_last := None\<rparr>
                           else L\<lparr>s_first := nextp sn\<rparr>)"
    define m3 where "m3 = m\<lparr>lists := (lists m)(l \<mapsto> L')\<rparr>"
    have p3: "path (nodes m3) (nextp sn) (int (Suc j)) (drop (Suc j) xs) None"
      using suf by (simp add: m3_def)
    from ll_remove_reindex_path [OF p3 b3] obtain m4 where m4:
      "ll_remove_reindex m3 (nextp sn) = Some (Inr m4)"
      "path (nodes m4) (nextp sn) (int (Suc j) - 1) (drop (Suc j) xs) None"
      "lists m4 = lists m3" "\<forall>b. b \<notin> fst ` set (drop (Suc j) xs) \<longrightarrow> nodes m4 b = nodes m3 b"
      "iters m4 = iters m3" "objs m4 = objs m3"
      by blast
    from m4(4) sd sn(1) have s4: "nodes m4 s = Some sn" by (simp add: m3_def)
    define m5 where "m5 = m4\<lparr>nodes := (nodes m4)(s := None)\<rparr>"
    have front: "(case get_node m (s_first L) of Inl f \<Rightarrow> Some (Inl f) | Inr tn \<Rightarrow>
          (case upd_list m (Some l) (\<lambda>L. L\<lparr>s_first := nextp tn\<rparr>) of Inl f \<Rightarrow> Some (Inl f) | Inr m1 \<Rightarrow>
             if nextp tn = None then
               (case upd_list m1 (Some l) (\<lambda>L. L\<lparr>s_last := nextp tn\<rparr>) of Inl f \<Rightarrow> Some (Inl f)
                | Inr m2 \<Rightarrow> Some (Inr (m2, Some (s_first L))))
             else Some (Inr (m1, Some (s_first L))))) = Some (Inr (m3, Some (Some s)))"
      using f sn(1) L(1) by (simp add: get_node_def upd_list_def m3_def L'_def)
    have rem: "ll_remove m (Some l) i = Some (Inr (snd (xs ! nat i), m5))"
      unfolding unf xi using i0 sn(1,2) m4(1) s4
      by (simp only: front if_True) (simp add: get_node_def free_node_def m3_def m5_def)
    have "path (nodes m5) (nextp sn) 0 (drop (Suc j) xs) None"
      using m4(2) sd True by (simp add: m5_def path_upd_other)
    moreover have "lists m5 l = Some L'" using m4(3) by (simp add: m5_def m3_def)
    moreover have "s_first L' = nextp sn" by (simp add: L'_def)
    moreover have "s_last L' = (if length xs = 1 then None else Some (fst (last xs)))"
    proof (cases "nextp sn = None")
      case True
      with sn(3) \<open>j = 0\<close> have "length xs = 1" using j(1) by (cases xs) (auto split: if_splits)
      with True show ?thesis by (simp add: L'_def)
    next
      case False
      with sn(3) \<open>j = 0\<close> have "length xs \<noteq> 1" by (auto split: if_splits)
      with False L(3) xne show ?thesis by (simp add: L'_def)
    qed
    moreover have "nodes m5 s = None" by (simp add: m5_def)
    moreover have "iters m5 = iters m" "objs m5 = objs m"
      using m4(5,6) by (simp_all add: m5_def m3_def)
    ultimately show ?thesis using rem True by (simp add: j_def [symmetric] s_def)
  next
    case False
    define t where "t = fst (xs ! (j - 1))"
    from False j have ib: "0 < i" "i < 0 + int (length xs)" "j = nat (i - 0)" by simp_all
    from ll_remove_walk_path [OF L(2) ib t_def s_def] sn(1) obtain tn where tn:
      "nodes m t = Some tn"
      "ll_remove_walk m (s_first L) i =
         Some (Inr (m\<lparr>nodes := (nodes m)(t \<mapsto> tn\<lparr>nextp := nextp sn\<rparr>)\<rparr>, Some (Some s)))"
      by auto
    define m3 where "m3 = m\<lparr>nodes := (nodes m)(t \<mapsto> tn\<lparr>nextp := nextp sn\<rparr>)\<rparr>"
    from False j(1) have tk: "t \<in> fst ` set (take j xs)"
      unfolding t_def by (metis diff_less image_eqI nth_mem nth_take length_take min.absorb2
          less_imp_le zero_less_one not_gr_zero)
    from dist have "distinct (map fst (take j xs) @ map fst (drop j xs))"
      by (simp flip: map_append)
    then have disj: "fst ` set (take j xs) \<inter> fst ` set (drop j xs) = {}" by auto
    have dsub: "set (drop (Suc j) xs) \<subseteq> set (drop j xs)"
      by (metis drop_Suc set_drop_subset tl_drop drop_drop plus_1_eq_Suc)
    from j(1) have "xs ! j \<in> set (drop j xs)"
      by (metis Cons_nth_drop_Suc list.set_intros(1))
    then have sdj: "s \<in> fst ` set (drop j xs)" by (auto simp: s_def)
    with disj tk have ts: "t \<noteq> s" by auto
    from tk disj dsub have td: "t \<notin> fst ` set (drop (Suc j) xs)" by auto
    from sdj disj have st: "s \<notin> fst ` set (take j xs)" by auto
    have p3: "path (nodes m3) (nextp sn) (int (Suc j)) (drop (Suc j) xs) None"
      using suf td by (simp add: m3_def path_upd_other)
    from ll_remove_reindex_path [OF p3 b3] obtain m4 where m4:
      "ll_remove_reindex m3 (nextp sn) = Some (Inr m4)"
      "path (nodes m4) (nextp sn) (int (Suc j) - 1) (drop (Suc j) xs) None"
      "lists m4 = lists m3" "\<forall>b. b \<notin> fst ` set (drop (Suc j) xs) \<longrightarrow> nodes m4 b = nodes m3 b"
      "iters m4 = iters m3" "objs m4 = objs m3"
      by blast
    have s3: "nodes m3 s = Some sn" using sn(1) ts by (simp add: m3_def)
    from m4(4) sd s3 have s4: "nodes m4 s = Some sn" by simp
    define m5 where "m5 = m4\<lparr>nodes := (nodes m4)(s := None)\<rparr>"
    have rem: "ll_remove m (Some l) i = Some (Inr (snd (xs ! nat i), m5))"
      unfolding unf xi using ib(1) tn(2) s3 s4 sn(2) m4(1)
      by (simp add: get_node_def free_node_def m3_def [symmetric] m5_def)
    have suf5: "path (nodes m5) (nextp sn) (int j) (drop (Suc j) xs) None"
      using m4(2) sd by (simp add: m5_def path_upd_other)
    from path_split [OF L(2), of j] j(1)
    have pre: "path (nodes m) (s_first L) 0 (take j xs) (Some s)" by (simp add: s_def)
    have tne: "take j xs \<noteq> []" using False xne by simp
    have "last (take j xs) = take j xs ! (j - 1)"
      using False j(1) xne by (simp add: last_conv_nth)
    also have "\<dots> = xs ! (j - 1)" using False by simp
    finally have tl: "t = fst (last (take j xs))" by (simp add: t_def)
    from path_set_end [OF pre tne tl tn(1), of "nextp sn"]
    have "path (nodes m3) (s_first L) 0 (take j xs) (nextp sn)" by (simp add: m3_def)
    moreover have "\<And>b. b \<in> fst ` set (take j xs) \<Longrightarrow> nodes m5 b = nodes m3 b"
      using m4(4) disj dsub st by (auto simp: m5_def)
    ultimately have pre5: "path (nodes m5) (s_first L) 0 (take j xs) (nextp sn)"
      by (simp cong: path_cong)
    have len: "length (take j xs) = j" using j(1) by simp
    have "path (nodes m5) (s_first L) 0 (take j xs @ drop (Suc j) xs) None"
      unfolding path_append using pre5 suf5 len by auto
    moreover have "lists m5 l = Some L" using m4(3) L(1) by (simp add: m5_def m3_def)
    moreover have "length xs \<noteq> 1" using False j(1) by auto
    moreover have "nodes m5 s = None" by (simp add: m5_def)
    moreover have "iters m5 = iters m" "objs m5 = objs m"
      using m4(5,6) by (simp_all add: m5_def m3_def)
    ultimately show ?thesis using rem L(3) xne by (auto simp: j_def [symmetric] s_def)
  qed
qed

lemma ll_remove_wf:
  assumes wf: "ll_wf m l xs" and i: "0 \<le> i" "i < int (length xs)"
    and bnd: "int (length xs) \<le> INT_MAX"
    and ok: "Suc (nat i) < length xs \<or> length xs = 1"
  shows "\<exists>m'. ll_remove m (Some l) i = Some (Inr (snd (xs ! nat i), m')) \<and>
           ll_wf m' l (take (nat i) xs @ drop (Suc (nat i)) xs) \<and>
           iters m' = iters m \<and> objs m' = objs m"
proof -
  from ll_remove_chain [OF wf i bnd] obtain m' L' where r:
    "ll_remove m (Some l) i = Some (Inr (snd (xs ! nat i), m'))" "lists m' l = Some L'"
    "path (nodes m') (s_first L') 0 (take (nat i) xs @ drop (Suc (nat i)) xs) None"
    "s_last L' = (if length xs = 1 then None else Some (fst (last xs)))"
    "iters m' = iters m" "objs m' = objs m"
    by blast
  have "s_last L' = (if take (nat i) xs @ drop (Suc (nat i)) xs = [] then None
                     else Some (fst (last (take (nat i) xs @ drop (Suc (nat i)) xs))))"
  proof (cases "length xs = 1")
    case True
    with i have "nat i = 0" by simp
    with True r(4) show ?thesis by (cases xs) auto
  next
    case False
    with ok have "drop (Suc (nat i)) xs \<noteq> []" by simp
    with False r(4) show ?thesis by simp
  qed
  with r show ?thesis by (auto simp: ll_wf_def)
qed

text \<open>
  Away from the last position of a longer list, \<open>ll_remove\<close> behaves as specified: the
  size decreases by one, the positions before \<open>i\<close> keep their elements and every
  position from \<open>i\<close> on holds the element that was one position further.
\<close>

lemma ll_remove_shift:
  assumes wf: "ll_wf m l xs" and i: "0 \<le> i" "i < int (length xs)"
    and bnd: "int (length xs) \<le> INT_MAX"
    and ok: "Suc (nat i) < length xs \<or> length xs = 1"
  shows "\<exists>m'. ll_remove m (Some l) i = Some (Inr (snd (xs ! nat i), m')) \<and>
           ll_size m' (Some l) = Inr (int (length xs) - 1) \<and>
           (\<forall>j. 0 \<le> j \<and> j < i \<longrightarrow> ll_get m' (Some l) j = Some (Inr (snd (xs ! nat j)))) \<and>
           (\<forall>j. i \<le> j \<and> j < int (length xs) - 1 \<longrightarrow>
                ll_get m' (Some l) j = Some (Inr (snd (xs ! nat (j + 1)))))"
proof -
  let ?ys = "take (nat i) xs @ drop (Suc (nat i)) xs"
  from ll_remove_wf [OF wf i bnd ok] obtain m' where m':
    "ll_remove m (Some l) i = Some (Inr (snd (xs ! nat i), m'))" "ll_wf m' l ?ys"
    by blast
  from i have len: "length ?ys = length xs - 1" by auto
  from i have lenz: "int (length ?ys) = int (length xs) - 1" by auto
  with bnd have bnd': "int (length ?ys) \<le> INT_MAX" by simp
  have sz: "ll_size m' (Some l) = Inr (int (length xs) - 1)"
    using ll_size_wf [OF m'(2) bnd'] by (simp only: lenz)
  have lo: "ll_get m' (Some l) j = Some (Inr (snd (xs ! nat j)))" if "0 \<le> j \<and> j < i" for j
  proof -
    from that i have "0 \<le> j" "j < int (length xs) - 1" by linarith+
    from ll_get_wf [OF m'(2) sz this]
    have "ll_get m' (Some l) j = Some (Inr (snd (?ys ! nat j)))" by simp
    moreover from that i have "?ys ! nat j = xs ! nat j" by (simp add: nth_append)
    ultimately show ?thesis by simp
  qed
  have hi: "ll_get m' (Some l) j = Some (Inr (snd (xs ! nat (j + 1))))"
    if "i \<le> j \<and> j < int (length xs) - 1" for j
  proof -
    from that i have j: "0 \<le> j" "j < int (length xs) - 1" by linarith+
    from ll_get_wf [OF m'(2) sz j]
    have "ll_get m' (Some l) j = Some (Inr (snd (?ys ! nat j)))" by simp
    moreover from that i have "nat i \<le> nat j" "Suc (nat i) + (nat j - nat i) = nat (j + 1)"
      "Suc (nat i) + (nat j - nat i) \<le> length xs"
      by linarith+
    with i that have "?ys ! nat j = xs ! nat (j + 1)"
      by (simp add: nth_append min_def)
    ultimately show ?thesis by simp
  qed
  from m'(1) sz lo hi show ?thesis by blast
qed

lemma ll_wf_objs: "ll_wf (m\<lparr>objs := ob\<rparr>) l xs = ll_wf m l xs"
  by (simp add: ll_wf_def split: option.splits)

text \<open>
  \<open>ll_clear\<close> on a valid list removes every node, one call of \<open>ll_remove\<close> at index 0
  after the other, and passes each element reference to \<open>free\<close>: the non-null references
  must be live payload objects, each stored once.
\<close>

lemma ll_clear_wf:
  "ll_wf m l xs \<Longrightarrow> distinct (payloads xs) \<Longrightarrow> set (payloads xs) \<subseteq> dom (objs m) \<Longrightarrow>
   int (length xs) \<le> INT_MAX \<Longrightarrow>
     \<exists>m'. ll_clear m (Some l) = Some (Inr m') \<and> ll_wf m' l [] \<and>
          ll_size m' (Some l) = Inr 0 \<and> iters m' = iters m \<and>
          (\<forall>a. objs m' a = (if a \<in> set (payloads xs) then None else objs m a))"
proof (induction xs arbitrary: m)
  case Nil
  from ll_size_wf [OF Nil(1,4)] have sz: "ll_size m (Some l) = Inr 0" by simp
  then have "ll_clear m (Some l) = Some (Inr m)"
    by (simp add: ll_clear_def) (subst ll_clear_loop.simps, simp)
  with Nil(1) sz show ?case by (simp add: payloads_def map_filter_simps)
next
  case (Cons x xs)
  from ll_size_wf [OF Cons.prems(1,4)] have sz: "ll_size m (Some l) = Inr (int (length xs) + 1)"
    by simp
  from Cons.prems(4) have bnd: "int (length xs) \<le> INT_MAX" by simp
  from ll_remove_wf [OF Cons.prems(1) _ _ Cons.prems(4), of 0] obtain m1 where m1:
    "ll_remove m (Some l) 0 = Some (Inr (snd x, m1))" "ll_wf m1 l xs"
    "iters m1 = iters m" "objs m1 = objs m"
    by (cases xs) auto
  show ?case
  proof (cases "snd x")
    case None
    then have pl: "payloads (x # xs) = payloads xs" by (simp add: payloads_def map_filter_simps)
    with Cons.prems m1(4) have "distinct (payloads xs)" "set (payloads xs) \<subseteq> dom (objs m1)"
      by simp_all
    from Cons.IH [OF m1(2) this bnd] obtain m' where m': "ll_clear m1 (Some l) = Some (Inr m')"
      "ll_wf m' l []" "ll_size m' (Some l) = Inr 0" "iters m' = iters m1"
      "\<forall>a. objs m' a = (if a \<in> set (payloads xs) then None else objs m1 a)"
      by blast
    have "ll_clear m (Some l) = ll_clear m1 (Some l)"
      using sz m1(1) None
      by (simp add: ll_clear_def) (subst ll_clear_loop.simps, simp add: free_obj_def)
    with m' m1(3,4) pl show ?thesis by simp
  next
    case (Some a)
    then have pl: "payloads (x # xs) = a # payloads xs"
      by (simp add: payloads_def map_filter_simps)
    with Cons.prems m1(4) obtain bs where bs: "objs m1 a = Some bs" by auto
    define m2 where "m2 = m1\<lparr>objs := (objs m1)(a := None)\<rparr>"
    from pl Cons.prems m1(4) have "distinct (payloads xs)" "set (payloads xs) \<subseteq> dom (objs m2)"
      by (auto simp: m2_def)
    moreover have "ll_wf m2 l xs" using m1(2) by (simp add: m2_def ll_wf_objs)
    ultimately obtain m' where m': "ll_clear m2 (Some l) = Some (Inr m')"
      "ll_wf m' l []" "ll_size m' (Some l) = Inr 0" "iters m' = iters m2"
      "\<forall>b. objs m' b = (if b \<in> set (payloads xs) then None else objs m2 b)"
      using Cons.IH [of m2] bnd by blast
    have "ll_clear m (Some l) = ll_clear m2 (Some l)"
      using sz m1(1) Some bs
      by (simp add: ll_clear_def) (subst ll_clear_loop.simps, simp add: free_obj_def m2_def)
    with m' m1(3,4) pl show ?thesis by (simp add: m2_def)
  qed
qed

text \<open>
  Removing the last node of a list of two or more nodes: \<open>__last\<close> is not written and
  keeps pointing to the node that was freed, so the size can no longer be read and the
  invariant is lost.
\<close>

lemma ll_remove_last_dangling:
  assumes wf: "ll_wf m l xs" and len: "2 \<le> length xs" and bnd: "int (length xs) \<le> INT_MAX"
  shows "\<exists>m' L'. ll_remove m (Some l) (int (length xs) - 1) = Some (Inr (snd (last xs), m')) \<and>
           lists m' l = Some L' \<and> s_last L' = Some (fst (last xs)) \<and>
           nodes m' (fst (last xs)) = None \<and>
           ll_size m' (Some l) = Inl BadAccess \<and> (\<forall>ys. \<not> ll_wf m' l ys)"
proof -
  from len have xne: "xs \<noteq> []" by auto
  then have i: "0 \<le> int (length xs) - 1" "int (length xs) - 1 < int (length xs)" by simp_all
  from len have n: "nat (int (length xs) - 1) = length xs - 1" by simp
  from ll_remove_chain [OF wf i bnd] n len obtain m' L' where r:
    "ll_remove m (Some l) (int (length xs) - 1) = Some (Inr (snd (xs ! (length xs - 1)), m'))"
    "lists m' l = Some L'" "s_last L' = Some (fst (last xs))"
    "nodes m' (fst (xs ! (length xs - 1))) = None"
    by auto
  from xne have lst: "xs ! (length xs - 1) = last xs" by (simp add: last_conv_nth)
  from r(2,3,4) lst have sz: "ll_size m' (Some l) = Inl BadAccess"
    by (simp add: ll_size_def get_list_def get_node_def)
  have "\<not> ll_wf m' l ys" for ys
    using ll_size_wf_wrap [of m' l ys] sz by auto
  with r sz lst show ?thesis by auto
qed

text \<open>
  C2, at the input where the code departs from it. On the valid two-element list of
  \<open>mem2\<close>, \<open>ll_remove\<close> at index 1 returns the element stored there, but the size is
  not 1 afterwards: \<open>__last\<close> still points to the freed node, and \<open>ll_size\<close> and every
  operation that calls it read freed memory.
\<close>

theorem ll_remove_last_size_fault:
  "ll_wf mem2 0 xs2 \<and> ll_size mem2 (Some 0) = Inr 2 \<and>
   (case ll_remove mem2 (Some 0) 1 of
      Some (Inr (e, m')) \<Rightarrow>
        e = Some 20 \<and> nodes m' 2 = None \<and>
        map_option s_last (lists m' 0) = Some (Some 2) \<and>
        ll_size m' (Some 0) = Inl BadAccess \<and>
        ll_get m' (Some 0) 0 = Some (Inl BadAccess)
    | _ \<Rightarrow> False)"
proof -
  have len: "2 \<le> length xs2" by (simp add: xs2_def)
  have bnd: "int (length xs2) \<le> INT_MAX" by (simp add: xs2_def INT_MAX_def)
  from ll_remove_last_dangling [OF mem2_wf len bnd] obtain m' L' where
    r: "ll_remove mem2 (Some 0) 1 = Some (Inr (Some 20, m'))" "lists m' 0 = Some L'"
    "s_last L' = Some 2" "nodes m' 2 = None" "ll_size m' (Some 0) = Inl BadAccess"
    by (auto simp: xs2_def)
  from r(5) have "ll_get m' (Some 0) 0 = Some (Inl BadAccess)" by (simp add: ll_get_def)
  with r mem2_wf mem2_size show ?thesis by simp
qed

text \<open>
  C1, at the input where the code departs from it. Starting from a freshly created list,
  two insertions give the valid list of two nodes; removing index 1 then returns
  normally and leaves a memory in which the list satisfies the invariant for no sequence
  of nodes: \<open>__last\<close> points to the node that was freed.
\<close>

theorem remove_last_breaks_invariant:
  "(case ll_init mem0 (Some 0) 1 of
      (list, ma) \<Rightarrow>
        (case ll_add ma (Some 1) list 0 (Some 10) of
           Some (Inr (r1, mb)) \<Rightarrow>
             (case ll_add mb (Some 2) list 1 (Some 20) of
                Some (Inr (r2, mc)) \<Rightarrow>
                  (case ll_remove mc list 1 of
                     Some (Inr (e, md)) \<Rightarrow>
                       list = Some 0 \<and> ll_wf ma 0 [] \<and>
                       r1 = 1 \<and> ll_wf mb 0 [(1, Some 10)] \<and>
                       r2 = 1 \<and> ll_wf mc 0 [(1, Some 10), (2, Some 20)] \<and>
                       e = Some 20 \<and> nodes md 2 = None \<and>
                       map_option s_last (lists md 0) = Some (Some 2) \<and>
                       (\<forall>xs. \<not> ll_wf md 0 xs)
                   | _ \<Rightarrow> False)
              | _ \<Rightarrow> False)
         | _ \<Rightarrow> False))"
proof -
  define ma where "ma = mem0\<lparr>lists := (lists mem0)(0 \<mapsto>
      \<lparr>s_first = None, s_last = None, s_elem_size = 1\<rparr>)\<rparr>"
  have init: "ll_init mem0 (Some 0) 1 = (Some 0, ma)" by (simp add: ll_init_def ma_def)
  have wfa: "ll_wf ma 0 []" by (simp add: ll_wf_def ma_def)
  have fa: "nodes ma 1 = None" by (simp add: ma_def mem0_def)
  from ll_add_wf [OF wfa _ _ fa, of 0 "Some 10"] obtain mb where
    mb: "ll_add ma (Some 1) (Some 0) 0 (Some 10) = Some (Inr (1, mb))"
    "ll_wf mb 0 [(1, Some 10)]" by (auto simp: INT_MAX_def)
  have fb: "nodes mb 2 = None"
  proof (rule ccontr)
    assume "nodes mb 2 \<noteq> None"
    with mb(1) show False
      by (auto simp: ll_add_def Let_def ll_size_def get_list_def upd_list_def ma_def mem0_def)
  qed
  from ll_add_wf [OF mb(2) _ _ fb, of 1 "Some 20"] obtain mc where
    mc: "ll_add mb (Some 2) (Some 0) 1 (Some 20) = Some (Inr (1, mc))"
    "ll_wf mc 0 [(1, Some 10), (2, Some 20)]" by (auto simp: INT_MAX_def)
  have len: "2 \<le> length [(1::addr, Some (10::addr)), (2, Some 20)]" by simp
  have bnd: "int (length [(1::addr, Some (10::addr)), (2, Some 20)]) \<le> INT_MAX"
    by (simp add: INT_MAX_def)
  from ll_remove_last_dangling [OF mc(2) len bnd] obtain md L' where
    md: "ll_remove mc (Some 0) 1 = Some (Inr (Some 20, md))" "lists md 0 = Some L'"
    "s_last L' = Some 2" "nodes md 2 = None" "\<forall>ys. \<not> ll_wf md 0 ys"
    by auto
  from init wfa mb mc md show ?thesis by simp
qed

subsection \<open>Search\<close>

lemma cmp_bytes_eq: "length bs = length cs \<Longrightarrow> (cmp_bytes bs cs = 0) = (bs = cs)"
proof (induction bs cs rule: cmp_bytes.induct)
  case (1 b bs c cs)
  have "b \<noteq> c \<Longrightarrow> int (unat b) - int (unat c) \<noteq> 0"
    by (simp add: word_uint_eq_iff)
  with 1 show ?case by auto
qed auto

lemma memcmp_readable:
  assumes "readable m n p" "readable m n q"
  shows "\<exists>c. memcmp m p q n = Inr c \<and> (c = 0) = (first_bytes m n p = first_bytes m n q)"
proof -
  from assms obtain a b bs cs where o: "p = Some a" "q = Some b" "objs m a = Some bs"
    "objs m b = Some cs" "n \<le> length bs" "n \<le> length cs"
    by (auto simp: readable_def split: option.splits)
  then have "length (take n bs) = length (take n cs)" by simp
  from cmp_bytes_eq [OF this] o show ?thesis
    by (simp add: memcmp_def first_bytes_def)
qed

lemma ll_contains_loop_path:
  "path (nodes m) p k xs None \<Longrightarrow> readable m n probe \<Longrightarrow> \<forall>x\<in>set xs. readable m n (snd x) \<Longrightarrow>
     ll_contains_loop m p probe n =
       Some (Inr (if \<exists>x\<in>set xs. first_bytes m n probe = first_bytes m n (snd x) then 1 else 0))"
proof (induction xs arbitrary: p k)
  case Nil
  then show ?case by (subst ll_contains_loop.simps) simp
next
  case (Cons x xs)
  from Cons.prems(1) obtain nd where nd: "p = Some (fst x)" "nodes m (fst x) = Some nd"
    "element nd = snd x" "path (nodes m) (nextp nd) (k + 1) xs None"
    by (auto split: option.splits)
  from Cons.prems(3) have r: "readable m n (snd x)" "\<forall>x\<in>set xs. readable m n (snd x)" by auto
  from memcmp_readable [OF Cons.prems(2) r(1)] obtain c where
    c: "memcmp m probe (snd x) n = Inr c"
    "(c = 0) = (first_bytes m n probe = first_bytes m n (snd x))" by blast
  show ?case
  proof (cases "c = 0")
    case True
    with nd c show ?thesis by (subst ll_contains_loop.simps) (simp add: get_node_def)
  next
    case False
    with nd c Cons.IH [OF nd(4) Cons.prems(2) r(2)] show ?thesis
      by (subst ll_contains_loop.simps) (simp add: get_node_def)
  qed
qed

lemma ll_indexof_loop_path:
  "path (nodes m) p k xs None \<Longrightarrow> readable m n probe \<Longrightarrow> \<forall>x\<in>set xs. readable m n (snd x) \<Longrightarrow>
     ll_indexof_loop m p probe n =
       Some (Inr (if \<exists>x\<in>set xs. first_bytes m n probe = first_bytes m n (snd x)
                  then k + int (length (takeWhile (\<lambda>x. first_bytes m n probe \<noteq> first_bytes m n (snd x)) xs))
                  else - 1))"
proof (induction xs arbitrary: p k)
  case Nil
  then show ?case by (subst ll_indexof_loop.simps) simp
next
  case (Cons x xs)
  from Cons.prems(1) obtain nd where nd: "p = Some (fst x)" "nodes m (fst x) = Some nd"
    "element nd = snd x" "index nd = k" "path (nodes m) (nextp nd) (k + 1) xs None"
    by (auto split: option.splits)
  from Cons.prems(3) have r: "readable m n (snd x)" "\<forall>x\<in>set xs. readable m n (snd x)" by auto
  from memcmp_readable [OF Cons.prems(2) r(1)] obtain c where
    c: "memcmp m probe (snd x) n = Inr c"
    "(c = 0) = (first_bytes m n probe = first_bytes m n (snd x))" by blast
  show ?case
  proof (cases "c = 0")
    case True
    with nd c show ?thesis by (subst ll_indexof_loop.simps) (simp add: get_node_def)
  next
    case False
    with nd c Cons.IH [OF nd(5) Cons.prems(2) r(2)] show ?thesis
      by (subst ll_indexof_loop.simps) (simp add: get_node_def)
  qed
qed

text \<open>
  C8, as the code has it. On a valid list whose stored elements, like the probe, are readable for
  \<open>element_size\<close> bytes: \<open>ll_contains\<close> returns 1 exactly when some stored element
  agrees with the probe on the first \<open>element_size\<close> bytes, and 0 otherwise;
  \<open>ll_indexof\<close> returns the smallest index whose element agrees with the probe, and
  -1 when no element does; so \<open>ll_contains\<close> is 1 exactly when \<open>ll_indexof\<close> is not
  -1. On the NULL list \<open>ll_contains\<close> returns 0 and \<open>ll_indexof\<close> returns -1.
\<close>

theorem ll_contains_indexof:
  assumes "ll_wf m l xs" and "lists m l = Some L" and "n = s_elem_size L"
    and "readable m n probe" and "\<forall>x\<in>set xs. readable m n (snd x)"
  shows "\<exists>c r. ll_contains m (Some l) probe = Some (Inr c) \<and>
           ll_indexof m (Some l) probe = Some (Inr r) \<and>
           (c = 1 \<or> c = 0) \<and>
           ((c = 1) = (\<exists>x\<in>set xs. first_bytes m n (snd x) = first_bytes m n probe)) \<and>
           (if \<exists>x\<in>set xs. first_bytes m n (snd x) = first_bytes m n probe
            then \<exists>k<length xs. r = int k \<and>
                   first_bytes m n (snd (xs ! k)) = first_bytes m n probe \<and>
                   (\<forall>j<k. first_bytes m n (snd (xs ! j)) \<noteq> first_bytes m n probe)
            else r = - 1) \<and>
           ((c = 1) = (r \<noteq> - 1)) \<and>
           ll_contains m None probe = Some (Inr 0) \<and>
           ll_indexof m None probe = Some (Inr (- 1))"
proof -
  let ?P = "\<lambda>x. first_bytes m n probe \<noteq> first_bytes m n (snd x)"
  let ?ex = "\<exists>x\<in>set xs. first_bytes m n probe = first_bytes m n (snd x)"
  define k where "k = length (takeWhile ?P xs)"
  from assms(1,2) have p: "path (nodes m) (s_first L) 0 xs None"
    by (auto elim: ll_wf_D)
  have c: "ll_contains m (Some l) probe = Some (Inr (if ?ex then 1 else 0))"
    using ll_contains_loop_path [OF p assms(4,5)] assms(2,3)
    by (simp add: ll_contains_def get_list_def)
  have r: "ll_indexof m (Some l) probe = Some (Inr (if ?ex then int k else - 1))"
    using ll_indexof_loop_path [OF p assms(4,5)] assms(2,3)
    by (simp add: ll_indexof_def get_list_def k_def)
  have null: "ll_contains m None probe = Some (Inr 0)" "ll_indexof m None probe = Some (Inr (- 1))"
    by (simp_all add: ll_contains_def ll_indexof_def)
  show ?thesis
  proof (cases ?ex)
    case True
    then have "takeWhile ?P xs \<noteq> xs" by (auto simp: takeWhile_eq_all_conv)
    then have kl: "k < length xs"
      unfolding k_def using length_takeWhile_le [of ?P xs]
      by (metis le_neq_implies_less takeWhile_eq_take take_all_iff nat_less_le)
    then have hit: "first_bytes m n (snd (xs ! k)) = first_bytes m n probe"
      using nth_length_takeWhile [of ?P xs] by (auto simp: k_def)
    have miss: "\<forall>j<k. first_bytes m n (snd (xs ! j)) \<noteq> first_bytes m n probe"
    proof (intro allI impI)
      fix j assume j: "j < k"
      then have "takeWhile ?P xs ! j = xs ! j" unfolding k_def by (rule takeWhile_nth)
      moreover from j have "takeWhile ?P xs ! j \<in> set (takeWhile ?P xs)" by (simp add: k_def)
      ultimately have "?P (xs ! j)" by (metis set_takeWhileD)
      then show "first_bytes m n (snd (xs ! j)) \<noteq> first_bytes m n probe" by auto
    qed
    from True have ex': "\<exists>x\<in>set xs. first_bytes m n (snd x) = first_bytes m n probe"
      by (metis (no_types))
    from c r True have "ll_contains m (Some l) probe = Some (Inr 1)"
      "ll_indexof m (Some l) probe = Some (Inr (int k))" by simp_all
    with ex' kl hit miss null show ?thesis by auto
  next
    case False
    then have ex': "\<not> (\<exists>x\<in>set xs. first_bytes m n (snd x) = first_bytes m n probe)"
      by (metis (no_types))
    from c r False have "ll_contains m (Some l) probe = Some (Inr 0)"
      "ll_indexof m (Some l) probe = Some (Inr (- 1))" by simp_all
    with ex' null show ?thesis by auto
  qed
qed

theorem ll_contains_indexof_witness:
  "ll_wf mem2 0 xs2 \<and>
   lists mem2 0 = Some \<lparr>s_first = Some 1, s_last = Some 2, s_elem_size = 1\<rparr> \<and>
   readable mem2 1 (Some 30) \<and> readable mem2 1 (Some 10) \<and> readable mem2 1 (Some 20) \<and>
   ll_contains mem2 (Some 0) (Some 30) = Some (Inr 1) \<and>
   ll_indexof mem2 (Some 0) (Some 30) = Some (Inr 1)"
proof -
  let ?L = "\<lparr>s_first = Some 1, s_last = Some 2, s_elem_size = 1\<rparr>"
  have L: "lists mem2 0 = Some ?L" by (simp add: mem2_def)
  have n: "1 = s_elem_size ?L" by simp
  have rp: "readable mem2 1 (Some 30)" by (simp add: readable_def mem2_def)
  have rx: "\<forall>x\<in>set xs2. readable mem2 1 (snd x)"
    by (simp add: readable_def mem2_def xs2_def)
  have ex: "\<exists>x\<in>set xs2. first_bytes mem2 1 (snd x) = first_bytes mem2 1 (Some 30)"
    by (simp add: first_bytes_def mem2_def xs2_def)
  have f0: "first_bytes mem2 1 (snd (xs2 ! 0)) \<noteq> first_bytes mem2 1 (Some 30)"
    by (simp add: first_bytes_def mem2_def xs2_def)
  from ll_contains_indexof [OF mem2_wf L n rp rx] ex obtain c r k where
    cr: "ll_contains mem2 (Some 0) (Some 30) = Some (Inr c)"
    "ll_indexof mem2 (Some 0) (Some 30) = Some (Inr r)" "c = 1"
    "k < length xs2" "r = int k"
    "first_bytes mem2 1 (snd (xs2 ! k)) = first_bytes mem2 1 (Some 30)"
    by auto
  from cr(4) have "k = 0 \<or> k = 1" by (auto simp: xs2_def)
  with cr(6) f0 have "k = 1" by auto
  with cr mem2_wf L rp rx show ?thesis by (simp add: xs2_def)
qed

text \<open>
  The claim as stated covers every list and probe. \<open>ll_add\<close> stores any reference,
  also the null one: after the insertions of \<open>NULL\<close>, \<open>a\<close> and \<open>b\<close> into a fresh
  list, the list is valid and holds \<open>b\<close> at index 2, but the search for \<open>b\<close> hands the
  null element of the first node to \<open>memcmp\<close>: both \<open>ll_contains\<close> and
  \<open>ll_indexof\<close> fault instead of returning 1 and 2.
\<close>

theorem ll_contains_null_element_counterexample:
  "(case ll_init mem0 (Some 0) 1 of
      (list, ma) \<Rightarrow>
        (case ll_add ma (Some 1) list 0 None of
           Some (Inr (r1, mb)) \<Rightarrow>
             (case ll_add mb (Some 2) list 1 (Some 10) of
                Some (Inr (r2, mc)) \<Rightarrow>
                  (case ll_add mc (Some 3) list 2 (Some 20) of
                     Some (Inr (r3, md)) \<Rightarrow>
                       r1 = 1 \<and> r2 = 1 \<and> r3 = 1 \<and>
                       ll_wf md 0 [(1, None), (2, Some 10), (3, Some 20)] \<and>
                       ll_get md list 2 = Some (Inr (Some 20)) \<and>
                       first_bytes md 1 (Some 20) = [9] \<and>
                       ll_contains md list (Some 20) = Some (Inl NullDeref) \<and>
                       ll_indexof md list (Some 20) = Some (Inl NullDeref)
                   | _ \<Rightarrow> False)
              | _ \<Rightarrow> False)
         | _ \<Rightarrow> False))"
  by (simp add: ll_init_def mem0_def ll_add_def Let_def ll_size_def get_list_def get_node_def
      upd_list_def upd_node_def wrap_int_def ll_wf_def ll_get_def ll_get_loop.simps
      ll_contains_def ll_indexof_def ll_contains_loop.simps ll_indexof_loop.simps memcmp_def
      first_bytes_def)

subsection \<open>Iterators\<close>

lemma li_hasnext_at:
  assumes "iters m it = Some I" "s_next I = Some t" "nodes m t = Some n"
  shows "li_hasnext m (Some it) = Inr (if nextp n = None then 0 else 1)"
  using assms by (simp add: li_hasnext_def get_iter_def get_node_def)

lemma li_next_at:
  assumes "iters m it = Some I" "s_next I = Some t" "nodes m t = Some n"
  shows "li_next m (Some it) = Inr (element n, m\<lparr>iters := (iters m)(it \<mapsto> I\<lparr>s_next := nextp n\<rparr>)\<rparr>)"
  using assms by (simp add: li_next_def get_iter_def get_node_def upd_iter_def)

lemma while_hasnext_next_path:
  "path (nodes m) (Some t) k xs None \<Longrightarrow> iters m it = Some I \<Longrightarrow> s_next I = Some t \<Longrightarrow>
     \<exists>m'. while_hasnext_next m (Some it) acc = Some (Inr (acc @ map snd (butlast xs), m'))"
proof (induction xs arbitrary: m t k I acc)
  case Nil
  then show ?case by simp
next
  case (Cons x xs)
  from Cons.prems(1) obtain n where n: "t = fst x" "nodes m t = Some n" "element n = snd x"
    "path (nodes m) (nextp n) (k + 1) xs None"
    by (auto split: option.splits)
  note h = li_hasnext_at [OF Cons.prems(2,3) n(2)] and nx = li_next_at [OF Cons.prems(2,3) n(2)]
  show ?case
  proof (cases "xs = []")
    case True
    with n(4) have "nextp n = None" by simp
    with h True show ?thesis by (subst while_hasnext_next.simps) simp
  next
    case False
    from path_head [OF n(4) False] obtain t' where t': "nextp n = Some t'" by simp
    define m1 where "m1 = m\<lparr>iters := (iters m)(it \<mapsto> I\<lparr>s_next := nextp n\<rparr>)\<rparr>"
    have p1: "path (nodes m1) (Some t') (k + 1) xs None" using n(4) t' by (simp add: m1_def)
    have i1: "iters m1 it = Some (I\<lparr>s_next := nextp n\<rparr>)" by (simp add: m1_def)
    have s1: "s_next (I\<lparr>s_next := nextp n\<rparr>) = Some t'" using t' by simp
    from Cons.IH [OF p1 i1 s1, of "acc @ [snd x]"] obtain m' where
      m': "while_hasnext_next m1 (Some it) (acc @ [snd x]) =
             Some (Inr ((acc @ [snd x]) @ map snd (butlast xs), m'))" by blast
    have "while_hasnext_next m (Some it) acc = while_hasnext_next m1 (Some it) (acc @ [snd x])"
      using h nx t' n(3) by (subst while_hasnext_next.simps) (simp add: m1_def)
    with m' False show ?thesis by simp
  qed
qed

text \<open>
  C3. When the iterator's cursor is on a node, \<open>li_hasnext\<close> answers whether that node
  has a successor, while \<open>li_next\<close> yields the node's element. On the final node of the
  list \<open>li_hasnext\<close> therefore returns 0 although \<open>li_next\<close> still returns an
  element, and the loop \<open>while (li_hasnext(it)) li_next(it)\<close> started on position \<open>j\<close>
  of a valid list yields the elements from \<open>j\<close> on except the last one.
\<close>

theorem li_hasnext_off_by_one:
  assumes "iters m it = Some I" and "s_next I = Some t" and "nodes m t = Some n"
  shows "li_hasnext m (Some it) = Inr (if nextp n = None then 0 else 1) \<and>
         li_next m (Some it) =
           Inr (element n, m\<lparr>iters := (iters m)(it \<mapsto> I\<lparr>s_next := nextp n\<rparr>)\<rparr>) \<and>
         (nextp n = None \<longrightarrow> li_hasnext m (Some it) = Inr 0) \<and>
         (\<forall>l xs j. ll_wf m l xs \<and> j < length xs \<and> t = fst (xs ! j) \<longrightarrow>
            (\<exists>m'. while_hasnext_next m (Some it) [] =
                     Some (Inr (map snd (butlast (drop j xs)), m'))))"
proof (intro conjI allI impI)
  show h: "li_hasnext m (Some it) = Inr (if nextp n = None then 0 else 1)"
    by (rule li_hasnext_at [OF assms])
  show "li_next m (Some it) =
      Inr (element n, m\<lparr>iters := (iters m)(it \<mapsto> I\<lparr>s_next := nextp n\<rparr>)\<rparr>)"
    by (rule li_next_at [OF assms])
  { assume "nextp n = None"
    with h show "li_hasnext m (Some it) = Inr 0" by simp }
  fix l xs j
  assume a: "ll_wf m l xs \<and> j < length xs \<and> t = fst (xs ! j)"
  then obtain L :: llist_s where L: "path (nodes m) (s_first L) 0 xs None"
    by (auto simp: ll_wf_def split: option.splits)
  from path_split [OF L, of j] a have "path (nodes m) (Some t) (0 + int j) (drop j xs) None"
    by simp
  from while_hasnext_next_path [OF this assms(1,2), of "[]"]
  show "\<exists>m'. while_hasnext_next m (Some it) [] = Some (Inr (map snd (butlast (drop j xs)), m'))"
    by simp
qed

theorem li_hasnext_off_by_one_witness:
  "iters mem2 6 = Some \<lparr>s_next = Some 2\<rparr> \<and>
   nodes mem2 2 = Some \<lparr>element = Some 20, index = 1, nextp = None\<rparr> \<and>
   li_hasnext mem2 (Some 6) = Inr 0 \<and>
   li_next mem2 (Some 6) =
     Inr (Some 20, mem2\<lparr>iters := (iters mem2)(6 \<mapsto> \<lparr>s_next = None\<rparr>)\<rparr>) \<and>
   iters mem2 5 = Some \<lparr>s_next = Some 1\<rparr> \<and> ll_wf mem2 0 xs2 \<and>
   (\<exists>m'. while_hasnext_next mem2 (Some 5) [] = Some (Inr ([Some 10], m')))"
proof -
  have i: "iters mem2 6 = Some \<lparr>s_next = Some 2\<rparr>" by (simp add: mem2_def)
  have s: "s_next \<lparr>s_next = Some 2\<rparr> = Some 2" by simp
  have n: "nodes mem2 2 = Some \<lparr>element = Some 20, index = 1, nextp = None\<rparr>"
    by (simp add: mem2_def)
  have i5: "iters mem2 5 = Some \<lparr>s_next = Some 1\<rparr>" by (simp add: mem2_def)
  have s5: "s_next \<lparr>s_next = Some 1\<rparr> = Some 1" by simp
  have n5: "nodes mem2 1 = Some \<lparr>element = Some 10, index = 0, nextp = Some 2\<rparr>"
    by (simp add: mem2_def)
  from li_hasnext_off_by_one [OF i5 s5 n5] have
    "ll_wf mem2 0 xs2 \<and> 0 < length xs2 \<and> 1 = fst (xs2 ! 0) \<longrightarrow>
       (\<exists>m'. while_hasnext_next mem2 (Some 5) [] =
                Some (Inr (map snd (butlast (drop 0 xs2)), m')))"
    by blast
  with mem2_wf have "\<exists>m'. while_hasnext_next mem2 (Some 5) [] = Some (Inr ([Some 10], m'))"
    by (simp add: xs2_def)
  with li_hasnext_off_by_one [OF i s n] i n i5 mem2_wf show ?thesis by simp
qed

lemma ll_itr_loop_path:
  "path (nodes m) p k xs None \<Longrightarrow> k \<le> idx \<Longrightarrow> idx < k + int (length xs) \<Longrightarrow>
   t = fst (xs ! nat (idx - k)) \<Longrightarrow>
     ll_itr_loop m p idx it =
       Some (Inr (Some it, m\<lparr>iters := (iters m)(it \<mapsto> \<lparr>s_next = Some t\<rparr>)\<rparr>))"
proof (induction xs arbitrary: p k)
  case Nil
  then show ?case by simp
next
  case (Cons x xs)
  from Cons.prems(1) obtain n where n: "p = Some (fst x)" "nodes m (fst x) = Some n"
    "index n = k" "path (nodes m) (nextp n) (k + 1) xs None"
    by (auto split: option.splits)
  show ?case
  proof (cases "idx = k")
    case True
    with n Cons.prems(4) show ?thesis
      by (subst ll_itr_loop.simps) (simp add: get_node_def)
  next
    case False
    with Cons.prems have b: "k + 1 \<le> idx" "idx < k + 1 + int (length xs)" by auto
    have s: "nat (idx - k) = Suc (nat (idx - (k + 1)))" using b by linarith
    with Cons.prems(4) have "t = fst (xs ! nat (idx - (k + 1)))" by simp
    from Cons.IH [OF n(4) b this] n False show ?thesis
      by (subst ll_itr_loop.simps) (simp add: get_node_def fun_upd_lam)
  qed
qed

lemma ll_itr_wf:
  assumes "ll_wf m l xs" "ll_size m (Some l) = Inr sz" "0 \<le> i" "i < sz"
  shows "ll_itr m (Some it) (Some l) i =
           Some (Inr (Some it, m\<lparr>iters := (iters m)(it \<mapsto> \<lparr>s_next = Some (fst (xs ! nat i))\<rparr>)\<rparr>))"
proof -
  from assms(1) obtain L where L: "lists m l = Some L" "path (nodes m) (s_first L) 0 xs None"
    by (rule ll_wf_D)
  from ll_size_le [OF assms(1,2)] assms(4) have "i < int (length xs)" by simp
  with ll_itr_loop_path [OF L(2), of i "fst (xs ! nat i)" it] assms(2,3,4) L show ?thesis
    by (simp add: ll_itr_def get_list_def)
qed

text \<open>
  C4. \<open>li_hasnext\<close> tests the iterator handle only: on an iterator whose cursor is null
  it dereferences the null cursor. Such an iterator is reachable: create an iterator on the
  last position of a valid non-empty list (of at most \<open>INT_MAX\<close> nodes, so that its size
  can be read) and call \<open>li_next\<close> once; the call yields the last element and leaves the
  cursor null, after which \<open>li_next\<close> reports the end and \<open>li_hasnext\<close> faults.
\<close>

theorem li_hasnext_null_cursor:
  "(iters m it = Some I \<and> s_next I = None \<longrightarrow> li_hasnext m (Some it) = Inl NullDeref) \<and>
   (ll_wf m l xs \<and> xs \<noteq> [] \<and> int (length xs) \<le> INT_MAX \<longrightarrow>
      (\<exists>m1 m2. ll_itr m (Some it) (Some l) (int (length xs) - 1) = Some (Inr (Some it, m1)) \<and>
         li_next m1 (Some it) = Inr (snd (last xs), m2) \<and>
         li_next m2 (Some it) = Inr (None, m2) \<and>
         li_hasnext m2 (Some it) = Inl NullDeref))"
proof (intro conjI impI)
  assume "iters m it = Some I \<and> s_next I = None"
  then show "li_hasnext m (Some it) = Inl NullDeref"
    by (simp add: li_hasnext_def get_iter_def get_node_def)
next
  assume a: "ll_wf m l xs \<and> xs \<noteq> [] \<and> int (length xs) \<le> INT_MAX"
  then have wf: "ll_wf m l xs" and ne: "xs \<noteq> []" and bnd: "int (length xs) \<le> INT_MAX"
    by simp_all
  define t where "t = fst (last xs)"
  define m1 where "m1 = m\<lparr>iters := (iters m)(it \<mapsto> \<lparr>s_next = Some t\<rparr>)\<rparr>"
  define m2 where "m2 = m1\<lparr>iters := (iters m1)(it \<mapsto> \<lparr>s_next = None\<rparr>)\<rparr>"
  from ne have i: "0 \<le> int (length xs) - 1" "int (length xs) - 1 < int (length xs)"
    by (simp_all add: Suc_leI)
  from ne have "nat (int (length xs) - 1) = length xs - 1" by simp
  with ne have "fst (xs ! nat (int (length xs) - 1)) = t" by (simp add: t_def last_conv_nth)
  with ll_itr_wf [OF wf ll_size_wf [OF wf bnd] i, of it]
  have itr: "ll_itr m (Some it) (Some l) (int (length xs) - 1) = Some (Inr (Some it, m1))"
    by (simp add: m1_def)
  from wf obtain L :: llist_s where L: "path (nodes m) (s_first L) 0 xs None"
    by (auto simp: ll_wf_def split: option.splits)
  from path_last [OF L ne] obtain n where n: "nodes m t = Some n" "element n = snd (last xs)"
    "nextp n = None" by (auto simp: t_def)
  have nx: "li_next m1 (Some it) = Inr (snd (last xs), m2)"
    using n by (simp add: li_next_def get_iter_def get_node_def upd_iter_def m1_def m2_def)
  have nx2: "li_next m2 (Some it) = Inr (None, m2)"
    by (simp add: li_next_def get_iter_def m2_def)
  have hn: "li_hasnext m2 (Some it) = Inl NullDeref"
    by (simp add: li_hasnext_def get_iter_def get_node_def m2_def)
  from itr nx nx2 hn
  show "\<exists>m1 m2. ll_itr m (Some it) (Some l) (int (length xs) - 1) = Some (Inr (Some it, m1)) \<and>
         li_next m1 (Some it) = Inr (snd (last xs), m2) \<and>
         li_next m2 (Some it) = Inr (None, m2) \<and>
         li_hasnext m2 (Some it) = Inl NullDeref"
    by blast
qed

theorem li_hasnext_null_cursor_witness:
  "ll_wf mem2 0 xs2 \<and> xs2 \<noteq> [] \<and> int (length xs2) \<le> INT_MAX \<and>
   (\<exists>m1 m2. ll_itr mem2 (Some 7) (Some 0) 1 = Some (Inr (Some 7, m1)) \<and>
      li_next m1 (Some 7) = Inr (Some 20, m2) \<and>
      iters m2 7 = Some \<lparr>s_next = None\<rparr> \<and>
      li_hasnext m2 (Some 7) = Inl NullDeref)"
proof -
  have ne: "xs2 \<noteq> []" by (simp add: xs2_def)
  have bnd: "int (length xs2) \<le> INT_MAX" by (simp add: xs2_def INT_MAX_def)
  from li_hasnext_null_cursor [where m = mem2 and l = 0 and xs = xs2 and it = 7] mem2_wf ne bnd
  obtain m1 m2 where
    r: "ll_itr mem2 (Some 7) (Some 0) (int (length xs2) - 1) = Some (Inr (Some 7, m1))"
    "li_next m1 (Some 7) = Inr (snd (last xs2), m2)"
    "li_hasnext m2 (Some 7) = Inl NullDeref"
    by blast
  from li_hasnext_null_cursor [where m = m2 and it = 7 and I = "\<lparr>s_next = None\<rparr>"] have
    w: "iters m2 7 = Some \<lparr>s_next = None\<rparr> \<longrightarrow> li_hasnext m2 (Some 7) = Inl NullDeref"
    by simp
  have m1: "m1 = mem2\<lparr>iters := (iters mem2)(7 \<mapsto> \<lparr>s_next = Some 2\<rparr>)\<rparr>"
    using r(1) ll_itr_wf [OF mem2_wf mem2_size, of 1 7] by (simp add: xs2_def)
  have "iters m2 7 = Some \<lparr>s_next = None\<rparr>"
    using r(2) unfolding m1
    by (auto simp: li_next_def get_iter_def get_node_def upd_iter_def mem2_def)
  with r mem2_wf ne bnd show ?thesis by (simp add: xs2_def)
qed

subsection \<open>The NULL list reference\<close>

text \<open>
  C9. Every list operation called with the NULL list reference returns its sentinel
  (\<open>-1\<close>, \<open>0\<close> or the null reference; nothing for the operations that return no value)
  and the memory it was given, whatever the other arguments are. As the memory is
  unchanged, a repeated call returns the same sentinel.
\<close>

theorem null_list_sentinels:
  "ll_size m None = Inr (- 1) \<and>
   ll_add m alloc None i e = Some (Inr (0, m)) \<and>
   ll_addfirst m alloc None e = Some (Inr m) \<and>
   ll_addlast m alloc None e = Some (Inr m) \<and>
   ll_get m None i = Some (Inr None) \<and>
   ll_first m None = Some (Inr None) \<and>
   ll_last m None = Some (Inr None) \<and>
   ll_contains m None e = Some (Inr 0) \<and>
   ll_indexof m None e = Some (Inr (- 1)) \<and>
   ll_remove m None i = Some (Inr (None, m)) \<and>
   ll_set m None i e = Some (Inr (None, m)) \<and>
   ll_clear m None = Some (Inr m) \<and>
   ll_free m None = Some (Inr m) \<and>
   ll_itr m alloc None i = Some (Inr (None, m))"
  by (simp add: ll_size_def ll_add_def ll_addfirst_def ll_addlast_def ll_get_def ll_first_def
      ll_last_def ll_contains_def ll_indexof_def ll_remove_def ll_set_def ll_clear_def
      ll_free_def ll_itr_def)

end
